theory Spec2Isabelle
  imports
    Main
    "HOL-Library.Multiset"
    "HOL-Library.Char_ord"
    "HOL-Library.List_Lexorder"
    "HOL-Library.Sublist"
begin

section \<open>Strings and arrays of the host language\<close>

text \<open>
  A JavaScript string is modelled as a \<^typ>\<open>string\<close>: a list of code units, restricted to
  the code units below 256. The order on \<^typ>\<open>string\<close> (from \<open>Char_ord\<close> and
  \<open>List_Lexorder\<close>) compares code units from the left and puts a proper prefix first, which
  is how JavaScript compares two strings.
\<close>

text \<open>\<^verbatim>\<open>s.startsWith(p)\<close>\<close>

definition startsWith :: "string \<Rightarrow> string \<Rightarrow> bool" where
  "startsWith s p = (take (length p) s = p)"

text \<open>
  \<^verbatim>\<open>s.replace(pat, rep)\<close> with a string pattern: the first occurrence of \<open>pat\<close> is replaced.
  (The replacement strings used with a string pattern in the source are all empty, so the
  \<^verbatim>\<open>$\<close> patterns of a replacement string play no role.)
\<close>

fun replace_first :: "string \<Rightarrow> string \<Rightarrow> string \<Rightarrow> string" where
  "replace_first [] pat rep = (if pat = [] then rep else [])"
| "replace_first (c # cs) pat rep =
     (if startsWith (c # cs) pat then rep @ drop (length pat) (c # cs)
      else c # replace_first cs pat rep)"

text \<open>
  \<^verbatim>\<open>xs.sort(cmp)\<close>. The language fixes the result only for a consistent comparator: the
  sorted, stable arrangement. The model is the stable insertion sort driven by the sign of
  the comparator; \<open>x\<close> goes in front of the first \<open>y\<close> with \<open>cmp x y \<le> 0\<close>.
\<close>

fun sort_insert :: "('a \<Rightarrow> 'a \<Rightarrow> int) \<Rightarrow> 'a \<Rightarrow> 'a list \<Rightarrow> 'a list" where
  "sort_insert cmp x [] = [x]"
| "sort_insert cmp x (y # ys) =
     (if cmp x y \<le> 0 then x # y # ys else y # sort_insert cmp x ys)"

fun array_sort :: "('a \<Rightarrow> 'a \<Rightarrow> int) \<Rightarrow> 'a list \<Rightarrow> 'a list" where
  "array_sort cmp [] = []"
| "array_sort cmp (x # xs) = sort_insert cmp x (array_sort cmp xs)"

text \<open>The comparison \<^verbatim>\<open>xs.sort()\<close> uses when no comparator is given, on strings.\<close>

definition default_compare :: "string \<Rightarrow> string \<Rightarrow> int" where
  "default_compare a b = (if a < b then - 1 else if b < a then 1 else 0)"

text \<open>
  \<^verbatim>\<open>[...new Set(xs)]\<close>: the elements of \<open>xs\<close> in the order of their first occurrence, each
  once. \<open>set_add\<close> is \<^verbatim>\<open>Set.prototype.add\<close> on the insertion-ordered element list.
\<close>

definition set_add :: "'a list \<Rightarrow> 'a \<Rightarrow> 'a list" where
  "set_add seen x = (if x \<in> set seen then seen else seen @ [x])"

definition set_spread :: "'a list \<Rightarrow> 'a list" where
  "set_spread xs = foldl set_add [] xs"


section \<open>The loader: \<^verbatim>\<open>loadBlogPosts\<close> and \<^verbatim>\<open>getCategories\<close>\<close>

text \<open>What a call of the front-matter parser can throw.\<close>

datatype js_error = Thrown string

text \<open>
  The \<^verbatim>\<open>data\<close> object of the front-matter parser, with the fields the loader reads.
  \<open>None\<close> is \<^verbatim>\<open>undefined\<close>: the front-matter does not define the field.
\<close>

record frontmatter =
  data_title :: "string option"
  data_date :: "string option"
  data_excerpt :: "string option"
  data_category :: "string option"
  data_tags :: "string list option"

record post =
  post_id :: nat
  slug :: string
  title :: "string option"
  date :: "string option"
  excerpt :: "string option"
  content :: string
  category :: string
  tags :: "string list"

text \<open>
  The front-matter parser \<^verbatim>\<open>matter\<close> is a library outside the repository, so it is a
  parameter: it returns \<^verbatim>\<open>{data, content}\<close> or throws.
\<close>

type_synonym matter = "string \<Rightarrow> js_error + frontmatter \<times> string"

text \<open>
  \<^verbatim>\<open>Date.parse\<close> is a built-in of the host, a parameter too: the time value of a date
  string in milliseconds, \<open>None\<close> for \<^verbatim>\<open>NaN\<close> (an invalid date).
\<close>

type_synonym date_parse = "string \<Rightarrow> int option"

text \<open>\<^verbatim>\<open>data.category || 'General'\<close>: \<^verbatim>\<open>undefined\<close> and the empty string are falsy.\<close>

definition category_or_default :: "string option \<Rightarrow> string" where
  "category_or_default c =
     (case c of None \<Rightarrow> ''General'' | Some s \<Rightarrow> if s = [] then ''General'' else s)"

text \<open>\<^verbatim>\<open>data.tags || []\<close>: an array is truthy, also the empty one.\<close>

definition tags_or_default :: "string list option \<Rightarrow> string list" where
  "tags_or_default t = (case t of None \<Rightarrow> [] | Some ts \<Rightarrow> ts)"

text \<open>The object literal \<^verbatim>\<open>post\<close> of the loop body.\<close>

definition make_post :: "nat \<Rightarrow> string \<Rightarrow> frontmatter \<Rightarrow> string \<Rightarrow> post" where
  "make_post i filename d markdown =
     \<lparr> post_id = i,
       slug = replace_first filename ''.md'' '''',
       title = data_title d,
       date = data_date d,
       excerpt = data_excerpt d,
       content = markdown,
       category = category_or_default (data_category d),
       tags = tags_or_default (data_tags d) \<rparr>"

text \<open>
  The test \<^verbatim>\<open>!category || post.category === category\<close>. The argument is \<open>None\<close> for
  \<^verbatim>\<open>null\<close> (also the default of an absent argument); \<^verbatim>\<open>!category\<close> holds for
  \<^verbatim>\<open>null\<close> and for the empty string.
\<close>

definition keeps :: "string option \<Rightarrow> post \<Rightarrow> bool" where
  "keeps cat p =
     (case cat of None \<Rightarrow> True | Some c \<Rightarrow> c = [] \<or> category p = c)"

text \<open>
  The \<^verbatim>\<open>for\<close> loop inside the \<^verbatim>\<open>try\<close> block, over \<^verbatim>\<open>Object.entries(blogContents)\<close>,
  with the running \<^verbatim>\<open>id\<close> and the array \<^verbatim>\<open>posts\<close> built so far. An exception of
  \<^verbatim>\<open>matter\<close> leaves the loop; \<^verbatim>\<open>posts\<close> keeps what was pushed before.
\<close>

fun load_loop ::
  "matter \<Rightarrow> string option \<Rightarrow> (string \<times> string) list \<Rightarrow> nat \<Rightarrow> post list
     \<Rightarrow> post list \<times> js_error option" where
  "load_loop mt cat [] i posts = (posts, None)"
| "load_loop mt cat ((filename, raw) # rest) i posts =
     (case mt raw of
        Inl e \<Rightarrow> (posts, Some e)
      | Inr (d, markdown) \<Rightarrow>
          (let p = make_post i filename d markdown
           in load_loop mt cat rest (i + 1) (if keeps cat p then posts @ [p] else posts)))"

text \<open>\<^verbatim>\<open>new Date(p.date).getTime()\<close>; \<^verbatim>\<open>new Date(undefined)\<close> is an invalid date.\<close>

definition post_time :: "date_parse \<Rightarrow> post \<Rightarrow> int option" where
  "post_time dp p = (case date p of None \<Rightarrow> None | Some s \<Rightarrow> dp s)"

text \<open>
  The comparator \<^verbatim>\<open>(a, b) => new Date(b.date) - new Date(a.date)\<close>. The difference is
  \<^verbatim>\<open>NaN\<close> when one date is invalid, and the sort reads a \<^verbatim>\<open>NaN\<close> result as \<open>0\<close>.
\<close>

definition date_compare :: "date_parse \<Rightarrow> post \<Rightarrow> post \<Rightarrow> int" where
  "date_compare dp a b =
     (case (post_time dp b, post_time dp a) of
        (Some tb, Some ta) \<Rightarrow> tb - ta
      | _ \<Rightarrow> 0)"

text \<open>
  \<^verbatim>\<open>loadBlogPosts(category)\<close> over the bundled documents \<open>blogContents\<close> (file name and
  raw text, in the order of the table). The result is the returned array and what the
  call wrote with \<^verbatim>\<open>console.error\<close>.
\<close>

definition loadBlogPosts ::
  "matter \<Rightarrow> date_parse \<Rightarrow> (string \<times> string) list \<Rightarrow> string option
     \<Rightarrow> post list \<times> (string \<times> js_error) list" where
  "loadBlogPosts mt dp blogContents cat =
     (case load_loop mt cat blogContents 1 [] of
        (posts, err) \<Rightarrow>
          (array_sort (date_compare dp) posts,
           case err of None \<Rightarrow> [] | Some e \<Rightarrow> [(''Error loading blog posts:'', e)]))"

definition getCategories :: "matter \<Rightarrow> date_parse \<Rightarrow> (string \<times> string) list \<Rightarrow> string list" where
  "getCategories mt dp blogContents =
     (let posts = fst (loadBlogPosts mt dp blogContents None);
          categories = set_spread (map category posts)
      in ''All'' # array_sort default_compare categories)"

text \<open>The table \<^verbatim>\<open>blogContents\<close> of the source, over the seven imported raw texts.\<close>

definition blogContents ::
  "string \<Rightarrow> string \<Rightarrow> string \<Rightarrow> string \<Rightarrow> string \<Rightarrow> string \<Rightarrow> string \<Rightarrow> (string \<times> string) list" where
  "blogContents welcome webDev awsBlog awsBackup awsBackupMastery serverlessNotify s3Security =
     [(''welcome.md'', welcome),
      (''web-development-journey.md'', webDev),
      (''gen-ai-healthcare-aws.md'', awsBlog),
      (''aws-backup-cornerstone.md'', awsBackup),
      (''aws-backup-mastery.md'', awsBackupMastery),
      (''serverless-notify.md'', serverlessNotify),
      (''automated-s3-security.md'', s3Security)]"


section \<open>The renderer: \<^verbatim>\<open>renderContent\<close>\<close>

subsection \<open>Character classes and string helpers\<close>

text \<open>\<^verbatim>\<open>\d\<close> of a regular expression.\<close>

definition isDigit :: "char \<Rightarrow> bool" where
  "isDigit c = (c \<in> set ''0123456789'')"

text \<open>
  \<^verbatim>\<open>\s\<close> of a regular expression, which is also what \<^verbatim>\<open>trim\<close> removes: tab, line feed,
  vertical tab, form feed, carriage return, space and no-break space (the white space and
  line terminators among the code units below 256).
\<close>

definition isSpace :: "char \<Rightarrow> bool" where
  "isSpace c = (c \<in> {CHR 0x09, CHR 0x0A, CHR 0x0B, CHR 0x0C, CHR 0x0D, CHR 0x20, CHR 0xA0})"

text \<open>The line terminators, which \<^verbatim>\<open>.\<close> of a regular expression does not match.\<close>

definition isLineTerminator :: "char \<Rightarrow> bool" where
  "isLineTerminator c = (c \<in> {CHR 0x0A, CHR 0x0D})"

text \<open>\<^verbatim>\<open>markdown.split('\n')\<close>: the empty string gives one empty line.\<close>

fun split_lines :: "string \<Rightarrow> string list" where
  "split_lines [] = [[]]"
| "split_lines (c # cs) =
     (if c = CHR 0x0A then [] # split_lines cs
      else (case split_lines cs of
              [] \<Rightarrow> [[c]]
            | l # ls \<Rightarrow> (c # l) # ls))"

text \<open>\<^verbatim>\<open>xs.join(sep)\<close>\<close>

fun join :: "string \<Rightarrow> string list \<Rightarrow> string" where
  "join sep [] = []"
| "join sep [x] = x"
| "join sep (x # y # ys) = x @ sep @ join sep (y # ys)"

text \<open>\<^verbatim>\<open>s.trim()\<close>\<close>

definition trim :: "string \<Rightarrow> string" where
  "trim s = rev (dropWhile isSpace (rev (dropWhile isSpace s)))"

subsection \<open>The regular expressions\<close>

text \<open>
  \<^verbatim>\<open>/^\d+\.\s/\<close>: the length of the match at the start of the line, if there is one. The
  digits are taken greedily; a shorter run of digits is never followed by the dot.
\<close>

definition numbered_marker :: "string \<Rightarrow> nat option" where
  "numbered_marker line =
     (let ds = takeWhile isDigit line in
      case dropWhile isDigit line of
        d # w # _ \<Rightarrow> if ds \<noteq> [] \<and> d = CHR ''.'' \<and> isSpace w then Some (length ds + 2) else None
      | _ \<Rightarrow> None)"

text \<open>\<^verbatim>\<open>line.replace(/^\d+\.\s/, '')\<close>\<close>

definition strip_numbered :: "string \<Rightarrow> string" where
  "strip_numbered line = (case numbered_marker line of None \<Rightarrow> line | Some n \<Rightarrow> drop n line)"

text \<open>\<^verbatim>\<open>line.replace(/^[*-]\s/, '')\<close>\<close>

definition strip_bullet :: "string \<Rightarrow> string" where
  "strip_bullet line =
     (case line of
        b # w # rest \<Rightarrow> if (b = CHR ''*'' \<or> b = CHR ''-'') \<and> isSpace w then rest else line
      | _ \<Rightarrow> line)"

text \<open>
  \<^verbatim>\<open>(.*?)\*\*\<close> read from just behind an opening \<^verbatim>\<open>**\<close>: the lazy group takes the fewest
  characters, none of them a line terminator, that bring it to a closing \<^verbatim>\<open>**\<close>. The
  result is the group and the text behind the closing marker.
\<close>

fun bold_close :: "string \<Rightarrow> (string \<times> string) option" where
  "bold_close [] = None"
| "bold_close (c # cs) =
     (if startsWith (c # cs) ''**'' then Some ([], drop 2 (c # cs))
      else if isLineTerminator c then None
      else (case bold_close cs of
              None \<Rightarrow> None
            | Some (inner, rest) \<Rightarrow> Some (c # inner, rest)))"

text \<open>
  \<^verbatim>\<open>text.replace(/\*\*(.*?)\*\*/g, '<strong>$1</strong>')\<close>: every match, found from the left
  and not overlapping an earlier one, is replaced; where no match starts, the character is
  kept and the search goes on one position further.
\<close>

function bold :: "string \<Rightarrow> string" where
  "bold [] = []"
| "bold (c # cs) =
     (if startsWith (c # cs) ''**'' then
        (case bold_close (drop 1 cs) of
           Some (inner, rest) \<Rightarrow> ''<strong>'' @ inner @ ''</strong>'' @ bold rest
         | None \<Rightarrow> c # bold cs)
      else c # bold cs)"
  by pat_completeness auto
termination
proof (relation "measure length")
  have shorter: "length rest \<le> length s" if "bold_close s = Some (inner, rest)"
    for s inner rest
    using that
  proof (induction s arbitrary: inner)
    case Nil
    then show ?case by simp
  next
    case (Cons a s)
    then show ?case
      by (auto split: if_splits option.splits)
  qed
  fix c :: char and cs x2 inner rest
  assume "bold_close (drop 1 cs) = Some x2" and "(inner, rest) = x2"
  then have "length rest \<le> length (drop 1 cs)"
    using shorter [of "drop 1 cs" inner rest] by simp
  then show "(rest, c # cs) \<in> measure length"
    by simp
qed simp_all

text \<open>\<^verbatim>\<open>(.*?)\)\<close> read from just behind \<^verbatim>\<open>](\<close>: the source of the image.\<close>

fun img_src :: "string \<Rightarrow> string option" where
  "img_src [] = None"
| "img_src (c # cs) =
     (if c = CHR '')'' then Some []
      else if isLineTerminator c then None
      else map_option ((#) c) (img_src cs))"

text \<open>
  \<^verbatim>\<open>(.*?)\]\((.*?)\)\<close> read from just behind \<^verbatim>\<open>![\<close>: the lazy first group stops at the
  first \<^verbatim>\<open>](\<close> behind which the rest matches, and grows otherwise.
\<close>

fun img_alt :: "string \<Rightarrow> (string \<times> string) option" where
  "img_alt [] = None"
| "img_alt (c # cs) =
     (case (if startsWith (c # cs) '']('' then img_src (drop 1 cs) else None) of
        Some src \<Rightarrow> Some ([], src)
      | None \<Rightarrow>
          if isLineTerminator c then None
          else (case img_alt cs of
                  None \<Rightarrow> None
                | Some (alt, src) \<Rightarrow> Some (c # alt, src)))"

text \<open>
  \<^verbatim>\<open>line.match(/!\[(.*?)\]\((.*?)\)/)\<close>: the leftmost match anywhere in the line, as the
  pair of its two groups. The test \<^verbatim>\<open>line.match(/!\[.*?\]\(.*?\)/)\<close> of the branch succeeds
  on the same lines.
\<close>

fun image_match :: "string \<Rightarrow> (string \<times> string) option" where
  "image_match [] = None"
| "image_match (c # cs) =
     (case (if startsWith (c # cs) ''!['' then img_alt (drop 1 cs) else None) of
        Some r \<Rightarrow> Some r
      | None \<Rightarrow> image_match cs)"

subsection \<open>Elements and the state of the pass\<close>

text \<open>
  The \<^verbatim>\<open>key\<close> of an element: a template literal such as \<^verbatim>\<open>`p-${index}`\<close> is
  \<open>Indexed ''p'' index\<close>, a string literal such as \<^verbatim>\<open>"final-p"\<close> is \<open>Literal ''final-p''\<close>.
\<close>

datatype key = Indexed string nat | Literal string

text \<open>An item \<^verbatim>\<open><li>\<close> with its key and its inner markup \<^verbatim>\<open>formatted\<close>.\<close>

datatype li = Li key string

text \<open>
  The elements pushed by the pass: \<^verbatim>\<open><pre><code>\<close> with its text, \<^verbatim>\<open><p>\<close> with its
  inner markup, \<^verbatim>\<open><ul>\<close> with its items, \<^verbatim>\<open><h2>\<close> and \<^verbatim>\<open><h3>\<close> with their text, and
  \<^verbatim>\<open><img>\<close> with \<^verbatim>\<open>src\<close> and \<^verbatim>\<open>alt\<close>.
\<close>

datatype element =
    Pre key string
  | P key string
  | Ul key "li list"
  | H2 key string
  | H3 key string
  | Img key string string

record render_state =
  elements :: "element list"
  currentParagraph :: "string list"
  inCodeBlock :: bool
  codeLines :: "string list"
  listItems :: "li list"

definition init_state :: render_state where
  "init_state = \<lparr> elements = [], currentParagraph = [], inCodeBlock = False,
     codeLines = [], listItems = [] \<rparr>"

text \<open>
  The block \<^verbatim>\<open>if (currentParagraph.length > 0) { elements.push(<p .../>); currentParagraph = []; }\<close>
  that the branches repeat, with the key of the branch.
\<close>

definition flush_paragraph :: "key \<Rightarrow> render_state \<Rightarrow> render_state" where
  "flush_paragraph k s =
     (if currentParagraph s \<noteq> [] then
        s\<lparr> elements := elements s @ [P k (join '' '' (currentParagraph s))],
           currentParagraph := [] \<rparr>
      else s)"

text \<open>The block \<^verbatim>\<open>if (listItems.length > 0) { elements.push(<ul>...</ul>); listItems = []; }\<close>\<close>

definition flush_list :: "key \<Rightarrow> render_state \<Rightarrow> render_state" where
  "flush_list k s =
     (if listItems s \<noteq> [] then
        s\<lparr> elements := elements s @ [Ul k (listItems s)], listItems := [] \<rparr>
      else s)"

text \<open>Both blocks in a row, as the fence, heading, blank-line and image branches have them.\<close>

definition flush_both :: "nat \<Rightarrow> render_state \<Rightarrow> render_state" where
  "flush_both index s = flush_list (Indexed ''ul'' index) (flush_paragraph (Indexed ''p'' index) s)"

subsection \<open>The pass over the lines\<close>

text \<open>The body of \<^verbatim>\<open>lines.forEach((line, index) => ...)\<close>, branch by branch.\<close>

definition step :: "render_state \<Rightarrow> string \<Rightarrow> nat \<Rightarrow> render_state" where
  "step s line index =
     (if startsWith line ''```'' then
        (if inCodeBlock s then
           s\<lparr> elements := elements s @ [Pre (Indexed ''code'' index) (join [CHR 0x0A] (codeLines s))],
              codeLines := [],
              inCodeBlock := False \<rparr>
         else (flush_both index s)\<lparr> inCodeBlock := True \<rparr>)
      else if inCodeBlock s then s\<lparr> codeLines := codeLines s @ [line] \<rparr>
      else if startsWith line ''## '' then
        (let s' = flush_both index s
         in s'\<lparr> elements := elements s' @ [H2 (Indexed ''h2'' index) (replace_first line ''## '' '''')] \<rparr>)
      else if startsWith line ''### '' then
        (let s' = flush_both index s
         in s'\<lparr> elements := elements s' @ [H3 (Indexed ''h3'' index) (replace_first line ''### '' '''')] \<rparr>)
      else if numbered_marker line \<noteq> None then
        (let s' = flush_paragraph (Indexed ''p'' index) s;
             text = strip_numbered line;
             formatted = bold text
         in s'\<lparr> listItems := listItems s' @ [Li (Indexed ''li'' index) formatted] \<rparr>)
      else if startsWith line ''- '' \<or> startsWith line ''* '' then
        (let s' = flush_paragraph (Indexed ''p'' index) s;
             text = strip_bullet line;
             formatted = bold text
         in s'\<lparr> listItems := listItems s' @ [Li (Indexed ''li'' index) formatted] \<rparr>)
      else if trim line = [] then flush_both index s
      else if image_match line \<noteq> None then
        (let s' = flush_both index s
         in case image_match line of
              Some (alt, src) \<Rightarrow> s'\<lparr> elements := elements s' @ [Img (Indexed ''img'' index) src alt] \<rparr>
            | None \<Rightarrow> s')
      else
        (let formatted = bold line
         in s\<lparr> currentParagraph := currentParagraph s @ [formatted] \<rparr>))"

text \<open>\<^verbatim>\<open>forEach\<close> from the line with index \<open>index\<close> on.\<close>

fun run :: "render_state \<Rightarrow> nat \<Rightarrow> string list \<Rightarrow> render_state" where
  "run s index [] = s"
| "run s index (line # rest) = run (step s line index) (index + 1) rest"

text \<open>The flush behind the loop, and the returned \<^verbatim>\<open>elements\<close>.\<close>

definition finish :: "render_state \<Rightarrow> element list" where
  "finish s =
     elements (flush_list (Literal ''final-ul'') (flush_paragraph (Literal ''final-p'') s))"

definition renderContent :: "string \<Rightarrow> element list" where
  "renderContent markdown = finish (run init_state 0 (split_lines markdown))"


section \<open>The renderer over all code units, with the exceptions of the host\<close>

text \<open>
  The model of \<^verbatim>\<open>renderContent\<close> above reads a string of code units below 256 and has no
  place for an exception. This section gives the same function over arbitrary strings of
  the host, with its one possible exception as a value. A string is a list of UTF-16 code
  units, the numbers from 0 to 65535; the functions are defined on lists of all natural
  numbers, and what is shown of them holds for all of these. The regular expressions of
  the source have no \<^verbatim>\<open>u\<close> flag, so they too work code unit by code unit. Reading an
  index of \<^verbatim>\<open>null\<close>, the result of a \<^verbatim>\<open>match\<close> that failed, throws a \<^verbatim>\<open>TypeError\<close>;
  every other operation of the function returns for every string.
\<close>

type_synonym code_unit = nat

type_synonym js_string = "code_unit list"

text \<open>A string literal of the source.\<close>

definition lit :: "string \<Rightarrow> js_string" where
  "lit s = map of_char s"

definition startsWith16 :: "js_string \<Rightarrow> js_string \<Rightarrow> bool" where
  "startsWith16 s p = (take (length p) s = p)"

fun replace_first16 :: "js_string \<Rightarrow> js_string \<Rightarrow> js_string \<Rightarrow> js_string" where
  "replace_first16 [] pat rep = (if pat = [] then rep else [])"
| "replace_first16 (c # cs) pat rep =
     (if startsWith16 (c # cs) pat then rep @ drop (length pat) (c # cs)
      else c # replace_first16 cs pat rep)"

text \<open>\<^verbatim>\<open>\d\<close>: the digits 0 to 9.\<close>

definition isDigit16 :: "code_unit \<Rightarrow> bool" where
  "isDigit16 c = (0x30 \<le> c \<and> c \<le> 0x39)"

text \<open>
  \<^verbatim>\<open>\s\<close> and what \<^verbatim>\<open>trim\<close> removes: the white space of the language (tab, vertical tab,
  form feed, the byte order mark and the space separators of Unicode) and its line
  terminators.
\<close>

definition isSpace16 :: "code_unit \<Rightarrow> bool" where
  "isSpace16 c =
     (c \<in> {0x09, 0x0A, 0x0B, 0x0C, 0x0D, 0x20, 0xA0, 0x1680, 0x2028, 0x2029, 0x202F, 0x205F,
            0x3000, 0xFEFF}
      \<or> (0x2000 \<le> c \<and> c \<le> 0x200A))"

text \<open>The line terminators, which \<^verbatim>\<open>.\<close> does not match.\<close>

definition isLineTerminator16 :: "code_unit \<Rightarrow> bool" where
  "isLineTerminator16 c = (c \<in> {0x0A, 0x0D, 0x2028, 0x2029})"

fun split_lines16 :: "js_string \<Rightarrow> js_string list" where
  "split_lines16 [] = [[]]"
| "split_lines16 (c # cs) =
     (if c = 0x0A then [] # split_lines16 cs
      else (case split_lines16 cs of
              [] \<Rightarrow> [[c]]
            | l # ls \<Rightarrow> (c # l) # ls))"

fun join16 :: "js_string \<Rightarrow> js_string list \<Rightarrow> js_string" where
  "join16 sep [] = []"
| "join16 sep [x] = x"
| "join16 sep (x # y # ys) = x @ sep @ join16 sep (y # ys)"

definition trim16 :: "js_string \<Rightarrow> js_string" where
  "trim16 s = rev (dropWhile isSpace16 (rev (dropWhile isSpace16 s)))"

text \<open>\<^verbatim>\<open>/^\d+\.\s/\<close>, \<^verbatim>\<open>line.replace(/^\d+\.\s/, '')\<close> and \<^verbatim>\<open>line.replace(/^[*-]\s/, '')\<close>\<close>

definition numbered_marker16 :: "js_string \<Rightarrow> nat option" where
  "numbered_marker16 line =
     (let ds = takeWhile isDigit16 line in
      case dropWhile isDigit16 line of
        d # w # _ \<Rightarrow> if ds \<noteq> [] \<and> d = 0x2E \<and> isSpace16 w then Some (length ds + 2) else None
      | _ \<Rightarrow> None)"

definition strip_numbered16 :: "js_string \<Rightarrow> js_string" where
  "strip_numbered16 line =
     (case numbered_marker16 line of None \<Rightarrow> line | Some n \<Rightarrow> drop n line)"

definition strip_bullet16 :: "js_string \<Rightarrow> js_string" where
  "strip_bullet16 line =
     (case line of
        b # w # rest \<Rightarrow> if (b = 0x2A \<or> b = 0x2D) \<and> isSpace16 w then rest else line
      | _ \<Rightarrow> line)"

text \<open>\<^verbatim>\<open>text.replace(/\*\*(.*?)\*\*/g, '<strong>$1</strong>')\<close>, as \<open>bold_close\<close> and \<open>bold\<close>.\<close>

fun bold_close16 :: "js_string \<Rightarrow> (js_string \<times> js_string) option" where
  "bold_close16 [] = None"
| "bold_close16 (c # cs) =
     (if startsWith16 (c # cs) (lit ''**'') then Some ([], drop 2 (c # cs))
      else if isLineTerminator16 c then None
      else (case bold_close16 cs of
              None \<Rightarrow> None
            | Some (inner, rest) \<Rightarrow> Some (c # inner, rest)))"

function bold16 :: "js_string \<Rightarrow> js_string" where
  "bold16 [] = []"
| "bold16 (c # cs) =
     (if startsWith16 (c # cs) (lit ''**'') then
        (case bold_close16 (drop 1 cs) of
           Some (inner, rest) \<Rightarrow> lit ''<strong>'' @ inner @ lit ''</strong>'' @ bold16 rest
         | None \<Rightarrow> c # bold16 cs)
      else c # bold16 cs)"
  by pat_completeness auto
termination
proof (relation "measure length")
  have shorter: "length rest \<le> length s" if "bold_close16 s = Some (inner, rest)"
    for s inner rest
    using that
  proof (induction s arbitrary: inner)
    case Nil
    then show ?case by simp
  next
    case (Cons a s)
    then show ?case
      by (auto split: if_splits option.splits)
  qed
  fix c :: code_unit and cs x2 inner rest
  assume "bold_close16 (drop 1 cs) = Some x2" and "(inner, rest) = x2"
  then have "length rest \<le> length (drop 1 cs)"
    using shorter [of "drop 1 cs" inner rest] by simp
  then show "(rest, c # cs) \<in> measure length"
    by simp
qed simp_all

text \<open>\<^verbatim>\<open>line.match(/!\[(.*?)\]\((.*?)\)/)\<close>, as \<open>img_src\<close>, \<open>img_alt\<close> and \<open>image_match\<close>.\<close>

fun img_src16 :: "js_string \<Rightarrow> js_string option" where
  "img_src16 [] = None"
| "img_src16 (c # cs) =
     (if c = 0x29 then Some []
      else if isLineTerminator16 c then None
      else map_option ((#) c) (img_src16 cs))"

fun img_alt16 :: "js_string \<Rightarrow> (js_string \<times> js_string) option" where
  "img_alt16 [] = None"
| "img_alt16 (c # cs) =
     (case (if startsWith16 (c # cs) (lit '']('') then img_src16 (drop 1 cs) else None) of
        Some src \<Rightarrow> Some ([], src)
      | None \<Rightarrow>
          if isLineTerminator16 c then None
          else (case img_alt16 cs of
                  None \<Rightarrow> None
                | Some (alt, src) \<Rightarrow> Some (c # alt, src)))"

fun image_match16 :: "js_string \<Rightarrow> (js_string \<times> js_string) option" where
  "image_match16 [] = None"
| "image_match16 (c # cs) =
     (case (if startsWith16 (c # cs) (lit ''!['') then img_alt16 (drop 1 cs) else None) of
        Some r \<Rightarrow> Some r
      | None \<Rightarrow> image_match16 cs)"

text \<open>
  \<^verbatim>\<open>match[1]\<close> and \<^verbatim>\<open>match[2]\<close>: the groups of a match; on \<^verbatim>\<open>null\<close>, the result of a
  failed \<^verbatim>\<open>match\<close>, reading an index throws.
\<close>

definition match_group1 :: "(js_string \<times> js_string) option \<Rightarrow> js_error + js_string" where
  "match_group1 m = (case m of None \<Rightarrow> Inl (Thrown ''TypeError'') | Some (alt, src) \<Rightarrow> Inr alt)"

definition match_group2 :: "(js_string \<times> js_string) option \<Rightarrow> js_error + js_string" where
  "match_group2 m = (case m of None \<Rightarrow> Inl (Thrown ''TypeError'') | Some (alt, src) \<Rightarrow> Inr src)"

datatype li16 = Li16 key js_string

datatype element16 =
    Pre16 key js_string
  | P16 key js_string
  | Ul16 key "li16 list"
  | H2_16 key js_string
  | H3_16 key js_string
  | Img16 key js_string js_string

record render_state16 =
  elements16 :: "element16 list"
  currentParagraph16 :: "js_string list"
  inCodeBlock16 :: bool
  codeLines16 :: "js_string list"
  listItems16 :: "li16 list"

definition init_state16 :: render_state16 where
  "init_state16 = \<lparr> elements16 = [], currentParagraph16 = [], inCodeBlock16 = False,
     codeLines16 = [], listItems16 = [] \<rparr>"

definition flush_paragraph16 :: "key \<Rightarrow> render_state16 \<Rightarrow> render_state16" where
  "flush_paragraph16 k s =
     (if currentParagraph16 s \<noteq> [] then
        s\<lparr> elements16 := elements16 s @ [P16 k (join16 (lit '' '') (currentParagraph16 s))],
           currentParagraph16 := [] \<rparr>
      else s)"

definition flush_list16 :: "key \<Rightarrow> render_state16 \<Rightarrow> render_state16" where
  "flush_list16 k s =
     (if listItems16 s \<noteq> [] then
        s\<lparr> elements16 := elements16 s @ [Ul16 k (listItems16 s)], listItems16 := [] \<rparr>
      else s)"

definition flush_both16 :: "nat \<Rightarrow> render_state16 \<Rightarrow> render_state16" where
  "flush_both16 index s =
     flush_list16 (Indexed ''ul'' index) (flush_paragraph16 (Indexed ''p'' index) s)"

text \<open>
  The body of \<^verbatim>\<open>lines.forEach((line, index) => ...)\<close>; \<open>Inl\<close> is an exception that leaves
  the function.
\<close>

definition step16 :: "render_state16 \<Rightarrow> js_string \<Rightarrow> nat \<Rightarrow> js_error + render_state16" where
  "step16 s line index =
     (if startsWith16 line (lit ''```'') then
        (if inCodeBlock16 s then
           Inr (s\<lparr> elements16 := elements16 s
                      @ [Pre16 (Indexed ''code'' index) (join16 [0x0A] (codeLines16 s))],
                    codeLines16 := [],
                    inCodeBlock16 := False \<rparr>)
         else Inr ((flush_both16 index s)\<lparr> inCodeBlock16 := True \<rparr>))
      else if inCodeBlock16 s then Inr (s\<lparr> codeLines16 := codeLines16 s @ [line] \<rparr>)
      else if startsWith16 line (lit ''## '') then
        (let s' = flush_both16 index s
         in Inr (s'\<lparr> elements16 := elements16 s'
                   @ [H2_16 (Indexed ''h2'' index) (replace_first16 line (lit ''## '') [])] \<rparr>))
      else if startsWith16 line (lit ''### '') then
        (let s' = flush_both16 index s
         in Inr (s'\<lparr> elements16 := elements16 s'
                   @ [H3_16 (Indexed ''h3'' index) (replace_first16 line (lit ''### '') [])] \<rparr>))
      else if numbered_marker16 line \<noteq> None then
        (let s' = flush_paragraph16 (Indexed ''p'' index) s;
             text = strip_numbered16 line;
             formatted = bold16 text
         in Inr (s'\<lparr> listItems16 := listItems16 s' @ [Li16 (Indexed ''li'' index) formatted] \<rparr>))
      else if startsWith16 line (lit ''- '') \<or> startsWith16 line (lit ''* '') then
        (let s' = flush_paragraph16 (Indexed ''p'' index) s;
             text = strip_bullet16 line;
             formatted = bold16 text
         in Inr (s'\<lparr> listItems16 := listItems16 s' @ [Li16 (Indexed ''li'' index) formatted] \<rparr>))
      else if trim16 line = [] then Inr (flush_both16 index s)
      else if image_match16 line \<noteq> None then
        (let s' = flush_both16 index s;
             match = image_match16 line
         in if match \<noteq> None then
              (case match_group2 match of
                 Inl e \<Rightarrow> Inl e
               | Inr src \<Rightarrow>
                   (case match_group1 match of
                      Inl e \<Rightarrow> Inl e
                    | Inr alt \<Rightarrow>
                        Inr (s'\<lparr> elements16 := elements16 s'
                                  @ [Img16 (Indexed ''img'' index) src alt] \<rparr>)))
            else Inr s')
      else
        (let formatted = bold16 line
         in Inr (s\<lparr> currentParagraph16 := currentParagraph16 s @ [formatted] \<rparr>)))"

fun run16 :: "render_state16 \<Rightarrow> nat \<Rightarrow> js_string list \<Rightarrow> js_error + render_state16" where
  "run16 s index [] = Inr s"
| "run16 s index (line # rest) =
     (case step16 s line index of
        Inl e \<Rightarrow> Inl e
      | Inr s' \<Rightarrow> run16 s' (index + 1) rest)"

definition finish16 :: "render_state16 \<Rightarrow> element16 list" where
  "finish16 s =
     elements16 (flush_list16 (Literal ''final-ul'') (flush_paragraph16 (Literal ''final-p'') s))"

definition renderContent16 :: "js_string \<Rightarrow> js_error + element16 list" where
  "renderContent16 markdown =
     (case run16 init_state16 0 (split_lines16 markdown) of
        Inl e \<Rightarrow> Inl e
      | Inr s \<Rightarrow> Inr (finish16 s))"

text \<open>
  The lines that reach the last branch of the loop body outside a code block: every test
  in front of it fails.
\<close>

definition plain_line16 :: "js_string \<Rightarrow> bool" where
  "plain_line16 line =
     (\<not> startsWith16 line (lit ''```'') \<and> \<not> startsWith16 line (lit ''## '')
      \<and> \<not> startsWith16 line (lit ''### '')
      \<and> numbered_marker16 line = None
      \<and> \<not> startsWith16 line (lit ''- '') \<and> \<not> startsWith16 line (lit ''* '')
      \<and> trim16 line \<noteq> []
      \<and> image_match16 line = None)"

text \<open>The string has \<^verbatim>\<open>**\<close> somewhere.\<close>

fun contains_stars16 :: "js_string \<Rightarrow> bool" where
  "contains_stars16 [] = False"
| "contains_stars16 (c # cs) = (startsWith16 (c # cs) (lit ''**'') \<or> contains_stars16 cs)"


section \<open>Auxiliary definitions\<close>

text \<open>
  The posts the loop constructs, filter aside: one for each document in front of the first
  one on which the parser throws, numbered from \<open>i\<close>.
\<close>

fun parsed_posts :: "matter \<Rightarrow> (string \<times> string) list \<Rightarrow> nat \<Rightarrow> post list" where
  "parsed_posts mt [] i = []"
| "parsed_posts mt ((filename, raw) # rest) i =
     (case mt raw of
        Inl e \<Rightarrow> []
      | Inr (d, markdown) \<Rightarrow> make_post i filename d markdown # parsed_posts mt rest (i + 1))"

text \<open>What the first failing call of the parser throws, if a call fails.\<close>

fun first_error :: "matter \<Rightarrow> (string \<times> string) list \<Rightarrow> js_error option" where
  "first_error mt [] = None"
| "first_error mt ((filename, raw) # rest) =
     (case mt raw of Inl e \<Rightarrow> Some e | Inr _ \<Rightarrow> first_error mt rest)"

subsection \<open>Example documents\<close>

text \<open>
  A parser, three front-matters and the time values of their dates, for the concrete
  instances below. The parser throws on every text it does not know.
\<close>

definition example_old :: frontmatter where
  "example_old = \<lparr> data_title = Some ''My Journey'', data_date = Some ''2024-02-20'',
     data_excerpt = Some ''Reflecting'', data_category = None, data_tags = None \<rparr>"

definition example_new :: frontmatter where
  "example_new = \<lparr> data_title = Some ''Agents'', data_date = Some ''2025-09-22'',
     data_excerpt = Some ''Explore'', data_category = Some ''Agentic AI'',
     data_tags = Some [''aws''] \<rparr>"

definition example_all :: frontmatter where
  "example_all = \<lparr> data_title = Some ''Everything'', data_date = Some ''2025-02-28'',
     data_excerpt = None, data_category = Some ''All'', data_tags = None \<rparr>"

definition example_matter :: matter where
  "example_matter raw =
     (if raw = ''old'' then Inr (example_old, ''old body'')
      else if raw = ''new'' then Inr (example_new, ''new body'')
      else if raw = ''all'' then Inr (example_all, ''all body'')
      else Inl (Thrown ''bad front-matter''))"

definition example_date_parse :: date_parse where
  "example_date_parse s =
     (if s = ''2024-02-20'' then Some 1708387200000
      else if s = ''2025-09-22'' then Some 1758499200000
      else if s = ''2025-02-28'' then Some 1740700800000
      else None)"

text \<open>
  A second parser: two notes of one category, and two documents of another category, one
  of them with a date that is none.
\<close>

definition example_first :: frontmatter where
  "example_first = \<lparr> data_title = Some ''First'', data_date = Some ''2024-02-20'',
     data_excerpt = None, data_category = Some ''Notes'', data_tags = None \<rparr>"

definition example_second :: frontmatter where
  "example_second = \<lparr> data_title = Some ''Second'', data_date = Some ''2025-09-22'',
     data_excerpt = None, data_category = Some ''Notes'', data_tags = None \<rparr>"

definition example_undated :: frontmatter where
  "example_undated = \<lparr> data_title = Some ''Undated'', data_date = Some ''not a date'',
     data_excerpt = None, data_category = Some ''Misc'', data_tags = None \<rparr>"

definition example_dated :: frontmatter where
  "example_dated = \<lparr> data_title = Some ''Dated'', data_date = Some ''2025-02-28'',
     data_excerpt = None, data_category = Some ''Misc'', data_tags = None \<rparr>"

definition example_notes :: matter where
  "example_notes raw =
     (if raw = ''first'' then Inr (example_first, ''first body'')
      else if raw = ''second'' then Inr (example_second, ''second body'')
      else if raw = ''undated'' then Inr (example_undated, ''undated body'')
      else if raw = ''dated'' then Inr (example_dated, ''dated body'')
      else Inl (Thrown ''bad front-matter''))"

subsection \<open>Renderer\<close>

text \<open>
  What the two flush blocks of a branch push at line \<open>index\<close>: the pending paragraph, if
  there is one, then the pending list, if there is one.
\<close>

definition pending :: "nat \<Rightarrow> render_state \<Rightarrow> element list" where
  "pending index s =
     (if currentParagraph s \<noteq> [] then [P (Indexed ''p'' index) (join '' '' (currentParagraph s))] else [])
     @ (if listItems s \<noteq> [] then [Ul (Indexed ''ul'' index) (listItems s)] else [])"

text \<open>
  A string of code units below 256 as a string of the host, and with it the elements and
  the state of the pass.
\<close>

fun embed_li :: "li \<Rightarrow> li16" where
  "embed_li (Li k t) = Li16 k (lit t)"

fun embed_element :: "element \<Rightarrow> element16" where
  "embed_element (Pre k t) = Pre16 k (lit t)"
| "embed_element (P k t) = P16 k (lit t)"
| "embed_element (Ul k items) = Ul16 k (map embed_li items)"
| "embed_element (H2 k t) = H2_16 k (lit t)"
| "embed_element (H3 k t) = H3_16 k (lit t)"
| "embed_element (Img k src alt) = Img16 k (lit src) (lit alt)"

definition embed_state :: "render_state \<Rightarrow> render_state16" where
  "embed_state s =
     \<lparr> elements16 = map embed_element (elements s),
       currentParagraph16 = map lit (currentParagraph s),
       inCodeBlock16 = inCodeBlock s,
       codeLines16 = map lit (codeLines s),
       listItems16 = map embed_li (listItems s) \<rparr>"


section \<open>Properties of the loader\<close>

lemma load_loop_eq:
  "load_loop mt cat ents i acc =
     (acc @ filter (keeps cat) (parsed_posts mt ents i), first_error mt ents)"
  by (induction mt cat ents i acc rule: load_loop.induct)
     (auto split: sum.splits prod.splits)

lemma mset_sort_insert: "mset (sort_insert cmp x xs) = add_mset x (mset xs)"
  by (induction xs) auto

lemma mset_array_sort: "mset (array_sort cmp xs) = mset xs"
  by (induction xs) (auto simp: mset_sort_insert)

lemma set_array_sort: "set (array_sort cmp xs) = set xs"
  using mset_array_sort [of cmp xs] by (metis set_mset_mset)

lemma sort_insert_key:
  fixes key :: "'a \<Rightarrow> 'b::linorder"
  assumes "\<forall>y \<in> set ys. (cmp x y \<le> 0) = (key x \<le> key y)"
  shows "sort_insert cmp x ys = insort_key key x ys"
  using assms by (induction ys) auto

lemma array_sort_key:
  fixes key :: "'a \<Rightarrow> 'b::linorder"
  assumes "\<forall>x \<in> set xs. \<forall>y \<in> set xs. (cmp x y \<le> 0) = (key x \<le> key y)"
  shows "array_sort cmp xs = sort_key key xs"
  using assms
proof (induction xs)
  case Nil
  then show ?case by simp
next
  case (Cons x xs)
  then have IH: "array_sort cmp xs = sort_key key xs" by simp
  have "\<forall>y \<in> set (sort_key key xs). (cmp x y \<le> 0) = (key x \<le> key y)"
    using Cons.prems by simp
  then show ?case
    by (simp add: IH sort_insert_key)
qed

lemma default_compare_key: "(default_compare a b \<le> 0) = (a \<le> b)"
  by (auto simp: default_compare_def)

lemma array_sort_default: "array_sort default_compare xs = sort xs"
  by (rule array_sort_key) (simp add: default_compare_key)

lemma foldl_set_add:
  "distinct seen \<Longrightarrow>
     distinct (foldl set_add seen xs) \<and> set (foldl set_add seen xs) = set seen \<union> set xs"
  by (induction xs arbitrary: seen) (auto simp: set_add_def)

lemma set_spread_props: "distinct (set_spread xs) \<and> set (set_spread xs) = set xs"
  using foldl_set_add [of "[]" xs] by (simp add: set_spread_def)

lemma loadBlogPosts_eq:
  "loadBlogPosts mt dp ents cat =
     (array_sort (date_compare dp) (filter (keeps cat) (parsed_posts mt ents 1)),
      case first_error mt ents of None \<Rightarrow> [] | Some e \<Rightarrow> [(''Error loading blog posts:'', e)])"
  by (simp add: loadBlogPosts_def load_loop_eq)

lemma parsed_posts_append:
  assumes "\<forall>(f, raw) \<in> set good. \<exists>d m. mt raw = Inr (d, m)"
  shows "parsed_posts mt (good @ rest) i = parsed_posts mt good i @ parsed_posts mt rest (i + length good)"
  using assms by (induction good arbitrary: i) (auto split: sum.splits)

lemma first_error_append:
  assumes "\<forall>(f, raw) \<in> set good. \<exists>d m. mt raw = Inr (d, m)"
  shows "first_error mt (good @ rest) = first_error mt rest"
  using assms by (induction good) (auto split: sum.splits)

lemma first_error_good:
  assumes "\<forall>(f, raw) \<in> set good. \<exists>d m. mt raw = Inr (d, m)"
  shows "first_error mt good = None"
  using first_error_append [OF assms, of "[]"] by simp

lemma slug_parsed_posts:
  assumes "\<forall>(f, raw) \<in> set good. \<exists>d m. mt raw = Inr (d, m)"
  shows "map slug (parsed_posts mt good i) = map (\<lambda>(f, raw). replace_first f ''.md'' '''') good"
  using assms by (induction good arbitrary: i) (auto split: sum.splits simp: make_post_def)

lemma keeps_None: "filter (keeps None) xs = xs"
  by (simp add: keeps_def)

text \<open>
  Claim C1, amended. The \<^verbatim>\<open>try\<close> block encloses the whole loop, not the single
  document. When the parser throws on a document, \<^verbatim>\<open>loadBlogPosts\<close> itself does not throw
  and the failure is logged once; the result is the one the documents in front of the
  failing document give, so the failing document and every document behind it are
  left out. Documents that all parse log nothing, and without a filter each of them yields
  exactly one post (shown on the slugs).
\<close>

theorem loadBlogPosts_stops_at_first_failure:
  assumes "\<forall>(f, raw) \<in> set good. \<exists>d m. mt raw = Inr (d, m)"
    and "mt bad = Inl e"
  shows "loadBlogPosts mt dp (good @ (fn, bad) # rest) cat =
           (fst (loadBlogPosts mt dp good cat), [(''Error loading blog posts:'', e)])
         \<and> snd (loadBlogPosts mt dp good cat) = []
         \<and> mset (map slug (fst (loadBlogPosts mt dp good None))) =
             mset (map (\<lambda>(f, raw). replace_first f ''.md'' '''') good)"
proof -
  have a: "parsed_posts mt (good @ (fn, bad) # rest) 1 = parsed_posts mt good 1"
    using assms by (simp add: parsed_posts_append)
  have b: "first_error mt (good @ (fn, bad) # rest) = Some e"
    using assms by (simp add: first_error_append)
  have c: "first_error mt good = None"
    using assms(1) by (rule first_error_good)
  have "mset (map slug (array_sort (date_compare dp) (parsed_posts mt good 1))) =
        mset (map slug (parsed_posts mt good 1))"
    by (simp add: mset_array_sort)
  then have d: "mset (map slug (fst (loadBlogPosts mt dp good None))) =
      mset (map (\<lambda>(f, raw). replace_first f ''.md'' '''') good)"
    using assms(1) by (simp add: loadBlogPosts_eq keeps_None slug_parsed_posts)
  show ?thesis
    using a b c d by (simp add: loadBlogPosts_eq)
qed

text \<open>The amended claim C1 at a table of three documents whose second one fails.\<close>

theorem loadBlogPosts_stops_at_first_failure_witness:
  "example_matter ''old'' = Inr (example_old, ''old body'')
   \<and> example_matter ''broken'' = Inl (Thrown ''bad front-matter'')
   \<and> loadBlogPosts example_matter example_date_parse
        ([(''web.md'', ''old'')] @ (''x.md'', ''broken'') # [(''agents.md'', ''new'')]) None =
      (fst (loadBlogPosts example_matter example_date_parse [(''web.md'', ''old'')] None),
       [(''Error loading blog posts:'', Thrown ''bad front-matter'')])
   \<and> snd (loadBlogPosts example_matter example_date_parse [(''web.md'', ''old'')] None) = []
   \<and> mset (map slug
         (fst (loadBlogPosts example_matter example_date_parse [(''web.md'', ''old'')] None))) =
       mset (map (\<lambda>(f, raw). replace_first f ''.md'' '''') [(''web.md'', ''old'')])
   \<and> map slug (fst (loadBlogPosts example_matter example_date_parse
         ([(''web.md'', ''old'')] @ (''x.md'', ''broken'') # [(''agents.md'', ''new'')]) None)) =
       [''web'']"
proof -
  have h0: "example_matter ''old'' = Inr (example_old, ''old body'')"
    by (simp add: example_matter_def)
  have h1: "\<forall>(f, raw) \<in> set [(''web.md'', ''old'')]. \<exists>d m. example_matter raw = Inr (d, m)"
    by (simp add: example_matter_def)
  have h2: "example_matter ''broken'' = Inl (Thrown ''bad front-matter'')"
    by (simp add: example_matter_def)
  have v: "map slug (fst (loadBlogPosts example_matter example_date_parse
         ([(''web.md'', ''old'')] @ (''x.md'', ''broken'') # [(''agents.md'', ''new'')]) None)) =
       [''web'']"
    by (simp add: loadBlogPosts_def example_matter_def make_post_def keeps_def startsWith_def)
  show ?thesis
    using h0 h2 v loadBlogPosts_stops_at_first_failure [OF h1 h2] by blast
qed

text \<open>
  Claim C1 as stated fails: the second document of this table parses, the first one does
  not, and the result holds no post at all.
\<close>

theorem loadBlogPosts_failure_drops_later_documents:
  "example_matter ''new'' = Inr (example_new, ''new body'')
   \<and> loadBlogPosts example_matter example_date_parse
        [(''x.md'', ''broken''), (''agents.md'', ''new'')] None =
      ([], [(''Error loading blog posts:'', Thrown ''bad front-matter'')])"
  by (simp add: loadBlogPosts_def example_matter_def)


lemma parsed_posts_time:
  assumes "\<forall>(f, raw) \<in> set ents. \<forall>d m. mt raw = Inr (d, m) \<longrightarrow>
             (\<exists>s t. data_date d = Some s \<and> dp s = Some t)"
  shows "\<forall>p \<in> set (parsed_posts mt ents i). \<exists>t. post_time dp p = Some t"
  using assms
proof (induction ents arbitrary: i)
  case Nil
  then show ?case by simp
next
  case (Cons doc ents)
  obtain f raw where doc: "doc = (f, raw)" by (cases doc)
  have rest: "\<forall>p \<in> set (parsed_posts mt ents (i + 1)). \<exists>t. post_time dp p = Some t"
    using Cons.IH Cons.prems by simp
  show ?case
  proof (cases "mt raw")
    case (Inl e)
    then show ?thesis by (simp add: doc)
  next
    case (Inr r)
    obtain d m where r: "r = (d, m)" by (cases r)
    obtain s t where "data_date d = Some s" and "dp s = Some t"
      using Cons.prems Inr by (auto simp: doc r)
    then have "post_time dp (make_post i f d m) = Some t"
      by (simp add: post_time_def make_post_def)
    then show ?thesis
      using rest by (simp add: doc Inr r)
  qed
qed

lemma date_compare_key:
  assumes "post_time dp a = Some ta" and "post_time dp b = Some tb"
  shows "(date_compare dp a b \<le> 0) = (- ta \<le> - tb)"
  using assms by (simp add: date_compare_def)

lemma array_sort_date:
  assumes "\<forall>p \<in> set xs. \<exists>t. post_time dp p = Some t"
  shows "array_sort (date_compare dp) xs = sort_key (\<lambda>p. - the (post_time dp p)) xs"
proof (rule array_sort_key, intro ballI)
  fix x y
  assume "x \<in> set xs" and "y \<in> set xs"
  then obtain tx ty where "post_time dp x = Some tx" and "post_time dp y = Some ty"
    using assms by blast
  then show "(date_compare dp x y \<le> 0) = (- the (post_time dp x) \<le> - the (post_time dp y))"
    by (simp add: date_compare_key)
qed

lemma sorted_desc_sort_key:
  assumes "\<forall>p \<in> set xs. \<exists>t. post_time dp p = Some t"
  shows "sorted_wrt (\<lambda>p1 p2. \<exists>t1 t2. post_time dp p1 = Some t1 \<and> post_time dp p2 = Some t2 \<and> t2 \<le> t1)
           (sort_key (\<lambda>p. - the (post_time dp p)) xs)"
proof -
  let ?ys = "sort_key (\<lambda>p. - the (post_time dp p)) xs"
  have "sorted (map (\<lambda>p. - the (post_time dp p)) ?ys)"
    by (rule sorted_sort_key)
  then have s: "sorted_wrt (\<lambda>p1 p2. - the (post_time dp p1) \<le> - the (post_time dp p2)) ?ys"
    by (simp add: sorted_map)
  have v: "\<forall>p \<in> set ?ys. \<exists>t. post_time dp p = Some t"
    using assms by simp
  show ?thesis
  proof (rule sorted_wrt_mono_rel [OF _ s])
    fix p1 p2
    assume "p1 \<in> set ?ys" and "p2 \<in> set ?ys"
      and le: "- the (post_time dp p1) \<le> - the (post_time dp p2)"
    then obtain t1 t2 where "post_time dp p1 = Some t1" and "post_time dp p2 = Some t2"
      using v by blast
    then show "\<exists>t1 t2. post_time dp p1 = Some t1 \<and> post_time dp p2 = Some t2 \<and> t2 \<le> t1"
      using le by simp
  qed
qed

text \<open>
  Claim C2. If the date of every document that parses is a valid date, then for every
  filter the returned posts are in descending order of date: every post has a time value
  that is at least the time value of each post behind it, in particular of its neighbour.
\<close>

theorem loadBlogPosts_sorted_by_date_descending:
  assumes "\<forall>(f, raw) \<in> set ents. \<forall>d m. mt raw = Inr (d, m) \<longrightarrow>
             (\<exists>s t. data_date d = Some s \<and> dp s = Some t)"
  shows "sorted_wrt
           (\<lambda>p1 p2. \<exists>t1 t2. post_time dp p1 = Some t1 \<and> post_time dp p2 = Some t2 \<and> t2 \<le> t1)
           (fst (loadBlogPosts mt dp ents cat))"
proof -
  have v: "\<forall>p \<in> set (filter (keeps cat) (parsed_posts mt ents 1)). \<exists>t. post_time dp p = Some t"
    using parsed_posts_time [OF assms, of 1] by simp
  have eq: "fst (loadBlogPosts mt dp ents cat) =
      sort_key (\<lambda>p. - the (post_time dp p)) (filter (keeps cat) (parsed_posts mt ents 1))"
    by (simp only: loadBlogPosts_eq fst_conv array_sort_date [OF v])
  show ?thesis
    unfolding eq by (rule sorted_desc_sort_key [OF v])
qed

text \<open>Claim C2 at three documents given in a different order than their dates.\<close>

theorem loadBlogPosts_sorted_by_date_descending_witness:
  "example_date_parse ''2024-02-20'' = Some 1708387200000
   \<and> example_date_parse ''2025-09-22'' = Some 1758499200000
   \<and> example_date_parse ''2025-02-28'' = Some 1740700800000
   \<and> sorted_wrt
        (\<lambda>p1 p2. \<exists>t1 t2. post_time example_date_parse p1 = Some t1
                   \<and> post_time example_date_parse p2 = Some t2 \<and> t2 \<le> t1)
        (fst (loadBlogPosts example_matter example_date_parse
               [(''web.md'', ''old''), (''agents.md'', ''new''), (''every.md'', ''all'')] None))
   \<and> map slug (fst (loadBlogPosts example_matter example_date_parse
               [(''web.md'', ''old''), (''agents.md'', ''new''), (''every.md'', ''all'')] None))
       = [''agents'', ''every'', ''web'']"
proof -
  have d: "example_date_parse ''2024-02-20'' = Some 1708387200000
   \<and> example_date_parse ''2025-09-22'' = Some 1758499200000
   \<and> example_date_parse ''2025-02-28'' = Some 1740700800000"
    by (simp add: example_date_parse_def)
  have h: "\<forall>(f, raw) \<in> set [(''web.md'', ''old''), (''agents.md'', ''new''), (''every.md'', ''all'')].
      \<forall>d m. example_matter raw = Inr (d, m) \<longrightarrow>
        (\<exists>s t. data_date d = Some s \<and> example_date_parse s = Some t)"
    by (simp add: example_matter_def example_old_def example_new_def example_all_def
        example_date_parse_def)
  have v: "map slug (fst (loadBlogPosts example_matter example_date_parse
               [(''web.md'', ''old''), (''agents.md'', ''new''), (''every.md'', ''all'')] None))
       = [''agents'', ''every'', ''web'']"
    by (simp add: loadBlogPosts_def example_matter_def example_old_def example_new_def
        example_all_def example_date_parse_def make_post_def keeps_def date_compare_def
        post_time_def startsWith_def)
  show ?thesis
    using d v loadBlogPosts_sorted_by_date_descending [OF h, of None] by blast
qed

lemma category_or_default_nonempty: "category_or_default c \<noteq> []"
  by (simp add: category_or_default_def split: option.splits)

lemma parsed_posts_category: "\<forall>p \<in> set (parsed_posts mt ents i). category p \<noteq> []"
  by (induction ents arbitrary: i)
     (auto split: sum.splits simp: make_post_def category_or_default_nonempty)

lemma keeps_Some: "c \<noteq> [] \<Longrightarrow> keeps (Some c) = (\<lambda>p. category p = c)"
  by (auto simp: keeps_def)

lemma keeps_empty: "keeps (Some []) = keeps None"
  by (auto simp: keeps_def)

text \<open>
  Claim C3, amended. For a non-empty string \<open>c\<close> the call with filter \<open>c\<close> returns exactly
  the posts of the call without filter whose category is \<open>c\<close>, each once and with the same
  fields. When every post the call without filter returns has a valid date, the filtered
  result is those posts in the order they have in the unfiltered result: a subsequence
  of it.
\<close>

theorem loadBlogPosts_filter_nonempty:
  assumes "c \<noteq> []"
  shows "mset (fst (loadBlogPosts mt dp ents (Some c))) =
           mset (filter (\<lambda>p. category p = c) (fst (loadBlogPosts mt dp ents None)))
         \<and> ((\<forall>p \<in> set (fst (loadBlogPosts mt dp ents None)). \<exists>t. post_time dp p = Some t) \<longrightarrow>
              fst (loadBlogPosts mt dp ents (Some c)) =
                filter (\<lambda>p. category p = c) (fst (loadBlogPosts mt dp ents None))
              \<and> subseq (fst (loadBlogPosts mt dp ents (Some c)))
                   (fst (loadBlogPosts mt dp ents None)))"
proof -
  let ?all = "parsed_posts mt ents 1"
  let ?P = "\<lambda>p. category p = c"
  have some: "fst (loadBlogPosts mt dp ents (Some c)) = array_sort (date_compare dp) (filter ?P ?all)"
    by (simp only: loadBlogPosts_eq fst_conv keeps_Some [OF assms])
  have none: "fst (loadBlogPosts mt dp ents None) = array_sort (date_compare dp) ?all"
    by (simp only: loadBlogPosts_eq fst_conv keeps_None)
  have m: "mset (fst (loadBlogPosts mt dp ents (Some c))) =
           mset (filter ?P (fst (loadBlogPosts mt dp ents None)))"
    by (simp add: some none mset_array_sort)
  have l: "fst (loadBlogPosts mt dp ents (Some c)) = filter ?P (fst (loadBlogPosts mt dp ents None))"
    if valid: "\<forall>p \<in> set (fst (loadBlogPosts mt dp ents None)). \<exists>t. post_time dp p = Some t"
  proof -
    have v: "\<forall>p \<in> set ?all. \<exists>t. post_time dp p = Some t"
      using valid by (simp add: none set_array_sort)
    then have vf: "\<forall>p \<in> set (filter ?P ?all). \<exists>t. post_time dp p = Some t"
      by simp
    show ?thesis
      by (simp only: some none array_sort_date [OF v] array_sort_date [OF vf] filter_sort)
  qed
  have "subseq (fst (loadBlogPosts mt dp ents (Some c))) (fst (loadBlogPosts mt dp ents None))"
    if "\<forall>p \<in> set (fst (loadBlogPosts mt dp ents None)). \<exists>t. post_time dp p = Some t"
    using l [OF that] by simp
  then show ?thesis
    using m l by blast
qed

text \<open>
  The amended claim C3 at three documents with valid dates and the filter \<^verbatim>\<open>"Notes"\<close>,
  which keeps two of them.
\<close>

theorem loadBlogPosts_filter_nonempty_witness:
  "''Notes'' \<noteq> []
   \<and> map (post_time example_date_parse) (fst (loadBlogPosts example_notes example_date_parse
          [(''first.md'', ''first''), (''dated.md'', ''dated''), (''second.md'', ''second'')] None)) =
        [Some 1758499200000, Some 1740700800000, Some 1708387200000]
   \<and> map slug (fst (loadBlogPosts example_notes example_date_parse
          [(''first.md'', ''first''), (''dated.md'', ''dated''), (''second.md'', ''second'')] None)) =
        [''second'', ''dated'', ''first'']
   \<and> map slug (fst (loadBlogPosts example_notes example_date_parse
          [(''first.md'', ''first''), (''dated.md'', ''dated''), (''second.md'', ''second'')]
          (Some ''Notes''))) =
        [''second'', ''first'']
   \<and> fst (loadBlogPosts example_notes example_date_parse
          [(''first.md'', ''first''), (''dated.md'', ''dated''), (''second.md'', ''second'')]
          (Some ''Notes'')) =
       filter (\<lambda>p. category p = ''Notes'')
        (fst (loadBlogPosts example_notes example_date_parse
          [(''first.md'', ''first''), (''dated.md'', ''dated''), (''second.md'', ''second'')] None))
   \<and> subseq
        (fst (loadBlogPosts example_notes example_date_parse
          [(''first.md'', ''first''), (''dated.md'', ''dated''), (''second.md'', ''second'')]
          (Some ''Notes'')))
        (fst (loadBlogPosts example_notes example_date_parse
          [(''first.md'', ''first''), (''dated.md'', ''dated''), (''second.md'', ''second'')] None))"
proof -
  let ?ents = "[(''first.md'', ''first''), (''dated.md'', ''dated''), (''second.md'', ''second'')]"
  have h: "''Notes'' \<noteq> []" by simp
  have e: "fst (loadBlogPosts example_notes example_date_parse ?ents None) =
      [make_post 3 ''second.md'' example_second ''second body'',
       make_post 2 ''dated.md'' example_dated ''dated body'',
       make_post 1 ''first.md'' example_first ''first body'']"
    by (simp add: loadBlogPosts_def example_notes_def example_first_def example_second_def
        example_dated_def example_date_parse_def make_post_def keeps_def date_compare_def
        post_time_def)
  have t: "map (post_time example_date_parse)
        (fst (loadBlogPosts example_notes example_date_parse ?ents None)) =
        [Some 1758499200000, Some 1740700800000, Some 1708387200000]"
    unfolding e
    by (simp add: example_first_def example_second_def example_dated_def example_date_parse_def
        make_post_def post_time_def)
  have v: "\<forall>p \<in> set (fst (loadBlogPosts example_notes example_date_parse ?ents None)).
        \<exists>t. post_time example_date_parse p = Some t"
    unfolding e
    by (simp add: example_first_def example_second_def example_dated_def example_date_parse_def
        make_post_def post_time_def)
  have s: "map slug (fst (loadBlogPosts example_notes example_date_parse ?ents None)) =
        [''second'', ''dated'', ''first'']"
    unfolding e by (simp add: make_post_def startsWith_def)
  have f: "map slug (fst (loadBlogPosts example_notes example_date_parse ?ents (Some ''Notes''))) =
        [''second'', ''first'']"
    by (simp add: loadBlogPosts_def example_notes_def example_first_def example_second_def
        example_dated_def example_date_parse_def make_post_def keeps_def date_compare_def
        post_time_def startsWith_def category_or_default_def)
  note inst = loadBlogPosts_filter_nonempty [OF h, of example_notes example_date_parse ?ents,
    THEN conjunct2, THEN mp, OF v]
  show ?thesis
    by (rule conjI [OF h conjI [OF t conjI [OF s conjI [OF f inst]]]])
qed

text \<open>
  Claim C3 as stated fails twice. For the empty string, the call with filter \<^verbatim>\<open>""\<close>
  returns posts whose category is not \<^verbatim>\<open>""\<close>. And with a document whose date is none
  between two notes, the comparator answers 0 for every pair with that document: the
  unfiltered result keeps the order of the table, the filtered one has the later note
  first, and so it is no subsequence of the unfiltered result.
\<close>

theorem loadBlogPosts_filter_counterexamples:
  "map category (fst (loadBlogPosts example_matter example_date_parse
      [(''web.md'', ''old''), (''agents.md'', ''new'')] (Some ''''))) =
     [''Agentic AI'', ''General'']
   \<and> map slug (fst (loadBlogPosts example_notes example_date_parse
        [(''first.md'', ''first''), (''undated.md'', ''undated''), (''second.md'', ''second'')]
        (Some ''Notes''))) = [''second'', ''first'']
   \<and> map slug (fst (loadBlogPosts example_notes example_date_parse
        [(''first.md'', ''first''), (''undated.md'', ''undated''), (''second.md'', ''second'')]
        None)) = [''first'', ''undated'', ''second'']
   \<and> \<not> subseq
        (fst (loadBlogPosts example_notes example_date_parse
          [(''first.md'', ''first''), (''undated.md'', ''undated''), (''second.md'', ''second'')]
          (Some ''Notes'')))
        (fst (loadBlogPosts example_notes example_date_parse
          [(''first.md'', ''first''), (''undated.md'', ''undated''), (''second.md'', ''second'')]
          None))"
proof -
  let ?ents = "[(''first.md'', ''first''), (''undated.md'', ''undated''), (''second.md'', ''second'')]"
  have a: "map category (fst (loadBlogPosts example_matter example_date_parse
      [(''web.md'', ''old''), (''agents.md'', ''new'')] (Some ''''))) =
     [''Agentic AI'', ''General'']"
    by (simp add: loadBlogPosts_def example_matter_def example_old_def example_new_def
      example_date_parse_def make_post_def keeps_def date_compare_def
      post_time_def category_or_default_def)
  have b: "map slug (fst (loadBlogPosts example_notes example_date_parse ?ents (Some ''Notes''))) =
      [''second'', ''first'']"
    by (simp add: loadBlogPosts_def example_notes_def example_first_def example_second_def
        example_undated_def example_date_parse_def make_post_def keeps_def date_compare_def
        post_time_def startsWith_def category_or_default_def)
  have c: "map slug (fst (loadBlogPosts example_notes example_date_parse ?ents None)) =
      [''first'', ''undated'', ''second'']"
    by (simp add: loadBlogPosts_def example_notes_def example_first_def example_second_def
        example_undated_def example_date_parse_def make_post_def keeps_def date_compare_def
        post_time_def startsWith_def category_or_default_def)
  have d: "\<not> subseq (fst (loadBlogPosts example_notes example_date_parse ?ents (Some ''Notes'')))
        (fst (loadBlogPosts example_notes example_date_parse ?ents None))"
  proof
    assume "subseq (fst (loadBlogPosts example_notes example_date_parse ?ents (Some ''Notes'')))
        (fst (loadBlogPosts example_notes example_date_parse ?ents None))"
    then have "subseq (map slug (fst (loadBlogPosts example_notes example_date_parse ?ents (Some ''Notes''))))
        (map slug (fst (loadBlogPosts example_notes example_date_parse ?ents None)))"
      by (rule subseq_map)
    then show False
      unfolding b c by simp
  qed
  show ?thesis
    by (rule conjI [OF a conjI [OF b conjI [OF c d]]])
qed

text \<open>
  Claim C10. The empty string as filter behaves as no filter: result and log are those of
  the call without filter, every post that was constructed is returned, and none of the
  returned posts has the empty category.
\<close>

theorem loadBlogPosts_empty_filter_is_no_filter:
  "loadBlogPosts mt dp ents (Some '''') = loadBlogPosts mt dp ents None
   \<and> (\<forall>p \<in> set (fst (loadBlogPosts mt dp ents (Some ''''))). category p \<noteq> '''')
   \<and> mset (fst (loadBlogPosts mt dp ents (Some ''''))) = mset (parsed_posts mt ents 1)"
proof -
  have "\<forall>p \<in> set (array_sort (date_compare dp) (parsed_posts mt ents 1)). category p \<noteq> []"
    using parsed_posts_category [of mt ents 1] by (simp only: set_array_sort)
  then show ?thesis
    by (simp add: loadBlogPosts_eq keeps_empty keeps_None mset_array_sort del: One_nat_def)
qed

text \<open>Claim C10 at two documents.\<close>

theorem loadBlogPosts_empty_filter_is_no_filter_witness:
  "loadBlogPosts example_matter example_date_parse
      [(''web.md'', ''old''), (''agents.md'', ''new'')] (Some '''') =
   loadBlogPosts example_matter example_date_parse
      [(''web.md'', ''old''), (''agents.md'', ''new'')] None
   \<and> map category (fst (loadBlogPosts example_matter example_date_parse
         [(''web.md'', ''old''), (''agents.md'', ''new'')] None)) = [''Agentic AI'', ''General'']
   \<and> map slug (fst (loadBlogPosts example_matter example_date_parse
         [(''web.md'', ''old''), (''agents.md'', ''new'')] None)) = [''agents'', ''web'']"
proof -
  have c: "map category (fst (loadBlogPosts example_matter example_date_parse
         [(''web.md'', ''old''), (''agents.md'', ''new'')] None)) = [''Agentic AI'', ''General'']"
    by (simp add: loadBlogPosts_def example_matter_def example_old_def example_new_def
        example_date_parse_def make_post_def keeps_def date_compare_def
        post_time_def category_or_default_def)
  have s: "map slug (fst (loadBlogPosts example_matter example_date_parse
         [(''web.md'', ''old''), (''agents.md'', ''new'')] None)) = [''agents'', ''web'']"
    by (simp add: loadBlogPosts_def example_matter_def example_old_def example_new_def
        example_date_parse_def make_post_def keeps_def date_compare_def
        post_time_def startsWith_def)
  have e: "loadBlogPosts example_matter example_date_parse
      [(''web.md'', ''old''), (''agents.md'', ''new'')] (Some '''') =
   loadBlogPosts example_matter example_date_parse
      [(''web.md'', ''old''), (''agents.md'', ''new'')] None"
    by (rule loadBlogPosts_empty_filter_is_no_filter
      [of example_matter example_date_parse "[(''web.md'', ''old''), (''agents.md'', ''new'')]",
       THEN conjunct1])
  show ?thesis
    by (rule conjI [OF e conjI [OF c s]])
qed

text \<open>
  Claim C4 as stated fails: a document of category \<^verbatim>\<open>"All"\<close> makes the returned sequence
  hold \<^verbatim>\<open>"All"\<close> twice.
\<close>

theorem getCategories_All_All:
  "getCategories example_matter example_date_parse [(''every.md'', ''all'')] = [''All'', ''All'']"
  by (simp add: getCategories_def loadBlogPosts_def example_matter_def example_all_def
      make_post_def keeps_def category_or_default_def set_spread_def set_add_def)

text \<open>
  Claim C4, amended. \<^verbatim>\<open>getCategories\<close> returns \<^verbatim>\<open>"All"\<close> followed by the categories of
  the unfiltered load, each once, in ascending order of the string comparison. The part
  behind the first element has no duplicates; the whole sequence has none exactly when no
  post has the category \<^verbatim>\<open>"All"\<close>.
\<close>

theorem getCategories_All_then_sorted_distinct:
  "getCategories mt dp ents =
     ''All'' # sorted_list_of_set (category ` set (fst (loadBlogPosts mt dp ents None)))
   \<and> sorted (tl (getCategories mt dp ents))
   \<and> distinct (tl (getCategories mt dp ents))
   \<and> distinct (getCategories mt dp ents) =
       (''All'' \<notin> category ` set (fst (loadBlogPosts mt dp ents None)))"
proof -
  let ?posts = "fst (loadBlogPosts mt dp ents None)"
  let ?cs = "sort (set_spread (map category ?posts))"
  have g: "getCategories mt dp ents = ''All'' # ?cs"
    by (simp add: getCategories_def array_sort_default)
  have s: "sorted ?cs" by simp
  have d: "distinct ?cs" by (simp add: set_spread_props)
  have e: "set ?cs = category ` set ?posts" by (simp add: set_spread_props)
  have "sorted_list_of_set (set ?cs) = ?cs"
    using s d by (rule sorted_list_of_set.idem_if_sorted_distinct)
  then have u: "?cs = sorted_list_of_set (category ` set ?posts)"
    by (simp only: e)
  have m: "distinct (''All'' # ?cs) = (''All'' \<notin> category ` set ?posts)"
    using d e by simp
  show ?thesis
    unfolding g using s d u m by simp
qed

text \<open>The amended claim C4 at the table of the source, filled with example documents.\<close>

theorem getCategories_All_then_sorted_distinct_witness:
  "getCategories example_matter example_date_parse
     (blogContents ''old'' ''old'' ''new'' ''new'' ''old'' ''old'' ''new'') =
     [''All'', ''Agentic AI'', ''General'']
   \<and> distinct (getCategories example_matter example_date_parse
        (blogContents ''old'' ''old'' ''new'' ''new'' ''old'' ''old'' ''new''))"
proof -
  let ?ents = "blogContents ''old'' ''old'' ''new'' ''new'' ''old'' ''old'' ''new''"
  have c: "map category (fst (loadBlogPosts example_matter example_date_parse ?ents None)) =
      [''Agentic AI'', ''Agentic AI'', ''Agentic AI'', ''General'', ''General'', ''General'',
       ''General'']"
    by (simp add: loadBlogPosts_def blogContents_def example_matter_def example_old_def
        example_new_def example_date_parse_def make_post_def keeps_def date_compare_def
        post_time_def category_or_default_def)
  have v: "getCategories example_matter example_date_parse ?ents =
     [''All'', ''Agentic AI'', ''General'']"
    by (simp add: getCategories_def c set_spread_def set_add_def default_compare_def)
  have "category ` set (fst (loadBlogPosts example_matter example_date_parse ?ents None)) =
      set (map category (fst (loadBlogPosts example_matter example_date_parse ?ents None)))"
    by simp
  then have n: "''All'' \<notin> category ` set (fst (loadBlogPosts example_matter example_date_parse ?ents None))"
    by (simp only: c) simp
  have d: "distinct (getCategories example_matter example_date_parse ?ents)"
    using getCategories_All_then_sorted_distinct [of example_matter example_date_parse ?ents] n
    by blast
  show ?thesis
    using v d by (rule conjI)
qed

text \<open>
  Claim C8. A document that parses, behind documents that all parse, yields a post in the
  unfiltered result with the running number as id, the file name without \<^verbatim>\<open>.md\<close> as slug,
  and title, date, excerpt and body as the parser gave them. Its category is
  \<^verbatim>\<open>"General"\<close> when the front-matter has no category and the given category when that is
  a non-empty string; its tags are empty when the front-matter has no tags and the given
  tags otherwise.
\<close>

theorem constructed_post_fields:
  assumes "\<forall>(f, raw) \<in> set before. \<exists>d m. mt raw = Inr (d, m)"
    and "mt raw = Inr (d, markdown)"
  shows "\<exists>p \<in> set (fst (loadBlogPosts mt dp (before @ (filename, raw) # rest) None)).
           post_id p = length before + 1
         \<and> slug p = replace_first filename ''.md'' ''''
         \<and> title p = data_title d \<and> date p = data_date d \<and> excerpt p = data_excerpt d
         \<and> content p = markdown
         \<and> (data_category d = None \<longrightarrow> category p = ''General'')
         \<and> (\<forall>c. data_category d = Some c \<and> c \<noteq> [] \<longrightarrow> category p = c)
         \<and> (data_tags d = None \<longrightarrow> tags p = [])
         \<and> (\<forall>ts. data_tags d = Some ts \<longrightarrow> tags p = ts)"
proof -
  let ?p = "make_post (length before + 1) filename d markdown"
  have "parsed_posts mt (before @ (filename, raw) # rest) 1 =
      parsed_posts mt before 1 @ ?p # parsed_posts mt rest (1 + length before + 1)"
    using assms by (simp add: parsed_posts_append)
  then have m: "?p \<in> set (fst (loadBlogPosts mt dp (before @ (filename, raw) # rest) None))"
    by (simp add: loadBlogPosts_eq keeps_def set_array_sort del: One_nat_def)
  have f: "post_id ?p = length before + 1
         \<and> slug ?p = replace_first filename ''.md'' ''''
         \<and> title ?p = data_title d \<and> date ?p = data_date d \<and> excerpt ?p = data_excerpt d
         \<and> content ?p = markdown
         \<and> (data_category d = None \<longrightarrow> category ?p = ''General'')
         \<and> (\<forall>c. data_category d = Some c \<and> c \<noteq> [] \<longrightarrow> category ?p = c)
         \<and> (data_tags d = None \<longrightarrow> tags ?p = [])
         \<and> (\<forall>ts. data_tags d = Some ts \<longrightarrow> tags ?p = ts)"
    by (simp add: make_post_def category_or_default_def tags_or_default_def)
  show ?thesis
    by (rule bexI [of _ ?p]) (rule f, rule m)
qed

text \<open>Claim C8 at a document without category and tags, second in the table.\<close>

theorem constructed_post_fields_witness:
  "example_matter ''new'' = Inr (example_new, ''new body'')
   \<and> example_matter ''old'' = Inr (example_old, ''old body'')
   \<and> data_category example_old = None \<and> data_tags example_old = None
   \<and> (\<exists>p \<in> set (fst (loadBlogPosts example_matter example_date_parse
                 ([(''agents.md'', ''new'')] @ (''web.md'', ''old'') # []) None)).
          post_id p = 2 \<and> slug p = ''web'' \<and> title p = Some ''My Journey''
        \<and> date p = Some ''2024-02-20'' \<and> excerpt p = Some ''Reflecting''
        \<and> content p = ''old body'' \<and> category p = ''General'' \<and> tags p = [])"
proof -
  let ?res = "fst (loadBlogPosts example_matter example_date_parse
                 ([(''agents.md'', ''new'')] @ (''web.md'', ''old'') # []) None)"
  have h0: "example_matter ''new'' = Inr (example_new, ''new body'')"
    by (simp add: example_matter_def)
  have h1: "\<forall>(f, raw) \<in> set [(''agents.md'', ''new'')]. \<exists>d m. example_matter raw = Inr (d, m)"
    by (simp add: example_matter_def)
  have h2: "example_matter ''old'' = Inr (example_old, ''old body'')"
    by (simp add: example_matter_def)
  have h3: "data_category example_old = None"
    by (simp add: example_old_def)
  have h4: "data_tags example_old = None"
    by (simp add: example_old_def)
  have h5: "data_title example_old = Some ''My Journey'' \<and> data_date example_old = Some ''2024-02-20''
    \<and> data_excerpt example_old = Some ''Reflecting''"
    by (simp add: example_old_def)
  have ex: "\<exists>p \<in> set ?res.
          post_id p = 2 \<and> slug p = ''web'' \<and> title p = Some ''My Journey''
        \<and> date p = Some ''2024-02-20'' \<and> excerpt p = Some ''Reflecting''
        \<and> content p = ''old body'' \<and> category p = ''General'' \<and> tags p = []"
    using constructed_post_fields [OF h1 h2, of example_date_parse "''web.md''" "[]"]
    by (simp add: h3 h4 h5 startsWith_def numeral_2_eq_2)
  show ?thesis
    by (rule conjI [OF h0 conjI [OF h2 conjI [OF h3 conjI [OF h4 ex]]]])
qed


section \<open>Properties of the renderer\<close>

lemma flush_both_eq:
  "flush_both i s = s\<lparr> elements := elements s @ pending i s, currentParagraph := [], listItems := [] \<rparr>"
  by (simp add: flush_both_def flush_paragraph_def flush_list_def pending_def)

lemma step_open:
  "\<not> inCodeBlock s \<Longrightarrow> startsWith l ''```'' \<Longrightarrow>
     step s l i = s\<lparr> elements := elements s @ pending i s, currentParagraph := [],
                     listItems := [], inCodeBlock := True \<rparr>"
  by (simp add: step_def flush_both_eq)

lemma step_close:
  "inCodeBlock s \<Longrightarrow> startsWith l ''```'' \<Longrightarrow>
     step s l i = s\<lparr> elements := elements s @ [Pre (Indexed ''code'' i) (join [CHR 0x0A] (codeLines s))],
                     codeLines := [], inCodeBlock := False \<rparr>"
  by (simp add: step_def)

lemma step_inside:
  "inCodeBlock s \<Longrightarrow> \<not> startsWith l ''```'' \<Longrightarrow> step s l i = s\<lparr> codeLines := codeLines s @ [l] \<rparr>"
  by (simp add: step_def)

lemma run_append: "run s i (xs @ ys) = run (run s i xs) (i + length xs) ys"
  by (induction xs arbitrary: s i) simp_all

lemma run_inside:
  "inCodeBlock s \<Longrightarrow> \<forall>l \<in> set body. \<not> startsWith l ''```'' \<Longrightarrow>
     run s i body = s\<lparr> codeLines := codeLines s @ body \<rparr>"
  by (induction body arbitrary: s i) (simp_all add: step_inside)

text \<open>
  Claim C5. Outside a code block, a line that starts with the fence first pushes the
  pending paragraph and the pending list and then opens the code block. Inside, every line
  that does not start with the fence, whatever else it looks like, is appended unchanged to
  the buffered lines. The next line that starts with the fence closes the block and pushes
  exactly one \<open>Pre\<close> element, whose text is the buffered lines joined by line feeds.
\<close>

theorem fenced_code_block:
  assumes "\<not> inCodeBlock s"
    and "startsWith opening ''```''" and "startsWith closing ''```''"
    and "\<forall>l \<in> set body. \<not> startsWith l ''```''"
  shows "step s opening i =
           s\<lparr> elements := elements s @ pending i s, currentParagraph := [], listItems := [],
              inCodeBlock := True \<rparr>
       \<and> run s i (opening # body) =
           s\<lparr> elements := elements s @ pending i s, currentParagraph := [], listItems := [],
              inCodeBlock := True, codeLines := codeLines s @ body \<rparr>
       \<and> run s i (opening # body @ [closing]) =
           s\<lparr> elements := elements s @ pending i s
                 @ [Pre (Indexed ''code'' (i + 1 + length body)) (join [CHR 0x0A] (codeLines s @ body))],
              currentParagraph := [], listItems := [], inCodeBlock := False, codeLines := [] \<rparr>"
proof -
  let ?s1 = "s\<lparr> elements := elements s @ pending i s, currentParagraph := [], listItems := [],
              inCodeBlock := True \<rparr>"
  have a: "step s opening i = ?s1"
    using assms(1,2) by (rule step_open)
  have b: "run ?s1 (i + 1) body = ?s1\<lparr> codeLines := codeLines ?s1 @ body \<rparr>"
    using assms(4) by (simp add: run_inside)
  have c: "run s i (opening # body) = ?s1\<lparr> codeLines := codeLines s @ body \<rparr>"
    using a b by simp
  have "run s i (opening # body @ [closing]) =
      step (run s i (opening # body)) closing (i + 1 + length body)"
    using run_append [of s i "opening # body" "[closing]"] by simp
  then have d: "run s i (opening # body @ [closing]) =
      step (?s1\<lparr> codeLines := codeLines s @ body \<rparr>) closing (i + 1 + length body)"
    by (simp only: c)
  have e: "run s i (opening # body @ [closing]) =
           s\<lparr> elements := elements s @ pending i s
                 @ [Pre (Indexed ''code'' (i + 1 + length body)) (join [CHR 0x0A] (codeLines s @ body))],
              currentParagraph := [], listItems := [], inCodeBlock := False, codeLines := [] \<rparr>"
    unfolding d by (simp add: step_close assms(3))
  have c': "run s i (opening # body) =
           s\<lparr> elements := elements s @ pending i s, currentParagraph := [], listItems := [],
              inCodeBlock := True, codeLines := codeLines s @ body \<rparr>"
    unfolding c by simp
  show ?thesis
    by (rule conjI [OF a conjI [OF c' e]])
qed

text \<open>Claim C5 at a block whose lines look like a heading and a list item.\<close>

theorem fenced_code_block_witness:
  "\<not> inCodeBlock init_state
   \<and> startsWith ''```js'' ''```'' \<and> startsWith ''```'' ''```''
   \<and> \<not> startsWith ''## not a heading'' ''```'' \<and> \<not> startsWith ''- not a list'' ''```''
   \<and> run init_state 0 (''```js'' # [''## not a heading'', ''- not a list''] @ [''```'']) =
       \<lparr> elements = [Pre (Indexed ''code'' 3) ''## not a heading\<newline>- not a list''],
         currentParagraph = [], inCodeBlock = False, codeLines = [], listItems = [] \<rparr>"
proof -
  let ?body = "[''## not a heading'', ''- not a list'']"
  have h1: "\<not> inCodeBlock init_state" by (simp add: init_state_def)
  have h2: "startsWith ''```js'' ''```''" by (simp add: startsWith_def)
  have h3: "startsWith ''```'' ''```''" by (simp add: startsWith_def)
  have h4a: "\<not> startsWith ''## not a heading'' ''```''" by (simp add: startsWith_def)
  have h4b: "\<not> startsWith ''- not a list'' ''```''" by (simp add: startsWith_def)
  have h4: "\<forall>l \<in> set ?body. \<not> startsWith l ''```''"
    using h4a h4b by simp
  have r: "run init_state 0 (''```js'' # ?body @ [''```'']) =
      init_state\<lparr> elements := elements init_state @ pending 0 init_state
                 @ [Pre (Indexed ''code'' (0 + 1 + length ?body))
                      (join [CHR 0x0A] (codeLines init_state @ ?body))],
              currentParagraph := [], listItems := [], inCodeBlock := False, codeLines := [] \<rparr>"
    by (rule fenced_code_block [OF h1 h2 h3 h4, of 0, THEN conjunct2, THEN conjunct2])
  have v: "init_state\<lparr> elements := elements init_state @ pending 0 init_state
                 @ [Pre (Indexed ''code'' (0 + 1 + length ?body))
                      (join [CHR 0x0A] (codeLines init_state @ ?body))],
              currentParagraph := [], listItems := [], inCodeBlock := False, codeLines := [] \<rparr> =
       \<lparr> elements = [Pre (Indexed ''code'' 3) ''## not a heading\<newline>- not a list''],
         currentParagraph = [], inCodeBlock = False, codeLines = [], listItems = [] \<rparr>"
    by (simp add: init_state_def pending_def)
  have e: "run init_state 0 (''```js'' # ?body @ [''```'']) =
       \<lparr> elements = [Pre (Indexed ''code'' 3) ''## not a heading\<newline>- not a list''],
         currentParagraph = [], inCodeBlock = False, codeLines = [], listItems = [] \<rparr>"
    using r v by (rule trans)
  show ?thesis
    by (rule conjI [OF h1 conjI [OF h2 conjI [OF h3 conjI [OF h4a conjI [OF h4b e]]]]])
qed

lemma numbered_marker_digits:
  assumes "ds \<noteq> []" and "\<forall>d \<in> set ds. isDigit d"
  shows "numbered_marker (ds @ CHR ''.'' # CHR '' '' # t) = Some (length ds + 2)"
proof -
  have nd: "\<not> isDigit CHR ''.''" by (simp add: isDigit_def)
  have "takeWhile isDigit (ds @ CHR ''.'' # CHR '' '' # t) = ds"
    using assms(2) nd by (simp add: takeWhile_append2)
  moreover have "dropWhile isDigit (ds @ CHR ''.'' # CHR '' '' # t) = CHR ''.'' # CHR '' '' # t"
    using assms(2) nd by (simp add: dropWhile_append2)
  ultimately show ?thesis
    using assms(1) by (simp add: numbered_marker_def isSpace_def)
qed

lemma strip_numbered_digits:
  assumes "ds \<noteq> []" and "\<forall>d \<in> set ds. isDigit d"
  shows "strip_numbered (ds @ CHR ''.'' # CHR '' '' # t) = t"
  by (simp add: strip_numbered_def numbered_marker_digits [OF assms])

lemma digits_not_prefix:
  assumes "ds \<noteq> []" and "\<forall>d \<in> set ds. isDigit d"
  shows "\<not> startsWith (ds @ r) ''```''" and "\<not> startsWith (ds @ r) ''## ''"
    and "\<not> startsWith (ds @ r) ''### ''"
proof -
  obtain d ds' where ds: "ds = d # ds'" using assms(1) by (cases ds) auto
  then have "isDigit d" using assms(2) by simp
  then have "d \<noteq> CHR 0x60" and "d \<noteq> CHR ''#''"
    by (auto simp: isDigit_def)
  then show "\<not> startsWith (ds @ r) ''```''" and "\<not> startsWith (ds @ r) ''## ''"
    and "\<not> startsWith (ds @ r) ''### ''"
    by (simp_all add: startsWith_def ds)
qed

lemma step_numbered:
  assumes "\<not> inCodeBlock s" and "ds \<noteq> []" and "\<forall>d \<in> set ds. isDigit d"
  shows "step s (ds @ CHR ''.'' # CHR '' '' # t) i =
     (flush_paragraph (Indexed ''p'' i) s)
       \<lparr> listItems := listItems s @ [Li (Indexed ''li'' i) (bold t)] \<rparr>"
  using assms(1) digits_not_prefix [OF assms(2,3), of "CHR ''.'' # CHR '' '' # t"]
  by (simp add: step_def numbered_marker_digits [OF assms(2,3)]
      strip_numbered_digits [OF assms(2,3)] flush_paragraph_def)

lemma step_bullet:
  assumes "\<not> inCodeBlock s" and "m = ''- '' \<or> m = ''* ''"
  shows "step s (m @ t) i =
     (flush_paragraph (Indexed ''p'' i) s)
       \<lparr> listItems := listItems s @ [Li (Indexed ''li'' i) (bold t)] \<rparr>"
proof -
  have a: "startsWith (m @ t) ''- '' \<or> startsWith (m @ t) ''* ''"
    using assms(2) by (auto simp: startsWith_def)
  have b: "\<not> startsWith (m @ t) ''```''" "\<not> startsWith (m @ t) ''## ''"
    "\<not> startsWith (m @ t) ''### ''"
    using assms(2) by (auto simp: startsWith_def)
  have c: "numbered_marker (m @ t) = None"
    using assms(2) by (auto simp: numbered_marker_def isDigit_def)
  have d: "strip_bullet (m @ t) = t"
    using assms(2) by (auto simp: strip_bullet_def isSpace_def)
  show ?thesis
    using assms(1) a b c d by (simp add: step_def flush_paragraph_def)
qed

lemma step_item:
  assumes "\<not> inCodeBlock s"
    and "m = ''- '' \<or> m = ''* '' \<or> (\<exists>ds. ds \<noteq> [] \<and> (\<forall>d \<in> set ds. isDigit d) \<and> m = ds @ ''. '')"
  shows "step s (m @ t) i =
     (flush_paragraph (Indexed ''p'' i) s)
       \<lparr> listItems := listItems s @ [Li (Indexed ''li'' i) (bold t)] \<rparr>"
proof (cases "m = ''- '' \<or> m = ''* ''")
  case True
  with assms(1) show ?thesis by (rule step_bullet)
next
  case False
  then obtain ds where "ds \<noteq> []" and "\<forall>d \<in> set ds. isDigit d" and "m = ds @ ''. ''"
    using assms(2) by blast
  then show ?thesis
    using step_numbered [OF assms(1), of ds t i] by simp
qed

lemma run_items:
  assumes "\<not> inCodeBlock s" and "currentParagraph s = []"
    and "\<forall>(m, t) \<in> set items. m = ''- '' \<or> m = ''* ''
           \<or> (\<exists>ds. ds \<noteq> [] \<and> (\<forall>d \<in> set ds. isDigit d) \<and> m = ds @ ''. '')"
  shows "run s i (map (\<lambda>(m, t). m @ t) items) =
     s\<lparr> listItems := listItems s
           @ map (\<lambda>(j, (m, t)). Li (Indexed ''li'' j) (bold t)) (enumerate i items) \<rparr>"
  using assms
proof (induction items arbitrary: s i)
  case Nil
  then show ?case by simp
next
  case (Cons item items)
  obtain m t where item: "item = (m, t)" by (cases item)
  let ?s1 = "s\<lparr> listItems := listItems s @ [Li (Indexed ''li'' i) (bold t)] \<rparr>"
  have "step s (m @ t) i = (flush_paragraph (Indexed ''p'' i) s)
       \<lparr> listItems := listItems s @ [Li (Indexed ''li'' i) (bold t)] \<rparr>"
    using Cons.prems(1,3) by (intro step_item) (simp_all add: item)
  then have st: "step s (m @ t) i = ?s1"
    using Cons.prems(2) by (simp add: flush_paragraph_def)
  have "run ?s1 (Suc i) (map (\<lambda>(m, t). m @ t) items) =
     ?s1\<lparr> listItems := listItems ?s1
           @ map (\<lambda>(j, (m, t)). Li (Indexed ''li'' j) (bold t)) (enumerate (Suc i) items) \<rparr>"
    using Cons.prems by (intro Cons.IH) simp_all
  then show ?case
    by (simp add: item st)
qed

text \<open>
  Claim C6. Outside a code block, consecutive lines that each consist of a marker
  (\<^verbatim>\<open>- \<close>, \<^verbatim>\<open>* \<close>, or digits followed by \<^verbatim>\<open>. \<close>) and a text push the pending paragraph
  once, in front of everything, and leave the list buffer in place: each line appends one
  item, the bold-formatted text behind its marker, whatever the marker and its number were.
  At the end of the input the buffer becomes a single \<open>Ul\<close> element with all the items.
\<close>

theorem list_lines_accumulate:
  assumes "\<not> inCodeBlock s" and "items \<noteq> []"
    and "\<forall>(m, t) \<in> set items. m = ''- '' \<or> m = ''* ''
           \<or> (\<exists>ds. ds \<noteq> [] \<and> (\<forall>d \<in> set ds. isDigit d) \<and> m = ds @ ''. '')"
  shows "run s i (map (\<lambda>(m, t). m @ t) items) =
           s\<lparr> elements := elements s @
                 (if currentParagraph s \<noteq> []
                  then [P (Indexed ''p'' i) (join '' '' (currentParagraph s))] else []),
              currentParagraph := [],
              listItems := listItems s
                @ map (\<lambda>(j, (m, t)). Li (Indexed ''li'' j) (bold t)) (enumerate i items) \<rparr>
       \<and> finish (run s i (map (\<lambda>(m, t). m @ t) items)) =
           elements s @
             (if currentParagraph s \<noteq> []
              then [P (Indexed ''p'' i) (join '' '' (currentParagraph s))] else [])
           @ [Ul (Literal ''final-ul'')
                (listItems s
                  @ map (\<lambda>(j, (m, t)). Li (Indexed ''li'' j) (bold t)) (enumerate i items))]"
proof -
  obtain m t rest where items: "items = (m, t) # rest"
    using assms(2) by (cases items) auto
  let ?s0 = "flush_paragraph (Indexed ''p'' i) s"
  let ?s1 = "?s0\<lparr> listItems := listItems s @ [Li (Indexed ''li'' i) (bold t)] \<rparr>"
  have st: "step s (m @ t) i = ?s1"
    using assms(1,3) by (intro step_item) (simp_all add: items)
  have "run ?s1 (Suc i) (map (\<lambda>(m, t). m @ t) rest) =
     ?s1\<lparr> listItems := listItems ?s1
           @ map (\<lambda>(j, (m, t)). Li (Indexed ''li'' j) (bold t)) (enumerate (Suc i) rest) \<rparr>"
    using assms(1,3) by (intro run_items) (simp_all add: items flush_paragraph_def)
  then have r: "run s i (map (\<lambda>(m, t). m @ t) items) =
           s\<lparr> elements := elements s @
                 (if currentParagraph s \<noteq> []
                  then [P (Indexed ''p'' i) (join '' '' (currentParagraph s))] else []),
              currentParagraph := [],
              listItems := listItems s
                @ map (\<lambda>(j, (m, t)). Li (Indexed ''li'' j) (bold t)) (enumerate i items) \<rparr>"
    by (simp add: items st flush_paragraph_def)
  show ?thesis
    unfolding r by (simp add: finish_def flush_list_def flush_paragraph_def items)
qed

text \<open>Claim C6 at four list lines of the three styles behind a pending paragraph.\<close>

theorem list_lines_accumulate_witness:
  "\<not> inCodeBlock (init_state\<lparr> currentParagraph := [''intro''] \<rparr>)
   \<and> [(''7. '', ''**a** b''), (''- '', ''c''), (''* '', ''d''), (''12. '', ''e'')] \<noteq> []
   \<and> finish (run (init_state\<lparr> currentParagraph := [''intro''] \<rparr>) 1
        [''7. **a** b'', ''- c'', ''* d'', ''12. e'']) =
       [P (Indexed ''p'' 1) ''intro'',
        Ul (Literal ''final-ul'')
          [Li (Indexed ''li'' 1) ''<strong>a</strong> b'', Li (Indexed ''li'' 2) ''c'',
           Li (Indexed ''li'' 3) ''d'', Li (Indexed ''li'' 4) ''e'']]"
proof -
  let ?s = "init_state\<lparr> currentParagraph := [''intro''] \<rparr>"
  let ?items = "[(''7. '', ''**a** b''), (''- '', ''c''), (''* '', ''d''), (''12. '', ''e'')]"
  have h1: "\<not> inCodeBlock ?s" by (simp add: init_state_def)
  have h2: "?items \<noteq> []" by simp
  have d7: "\<exists>ds. ds \<noteq> [] \<and> (\<forall>d \<in> set ds. isDigit d) \<and> ''7. '' = ds @ ''. ''"
    by (rule exI [of _ "''7''"]) (simp add: isDigit_def)
  have d12: "\<exists>ds. ds \<noteq> [] \<and> (\<forall>d \<in> set ds. isDigit d) \<and> ''12. '' = ds @ ''. ''"
    by (rule exI [of _ "''12''"]) (simp add: isDigit_def)
  have h3: "\<forall>(m, t) \<in> set ?items. m = ''- '' \<or> m = ''* ''
           \<or> (\<exists>ds. ds \<noteq> [] \<and> (\<forall>d \<in> set ds. isDigit d) \<and> m = ds @ ''. '')"
    using d7 d12 by simp
  have l: "map (\<lambda>(m, t). m @ t) ?items = [''7. **a** b'', ''- c'', ''* d'', ''12. e'']"
    by simp
  have "finish (run ?s 1 (map (\<lambda>(m, t). m @ t) ?items)) =
       [P (Indexed ''p'' 1) ''intro'',
        Ul (Literal ''final-ul'')
          [Li (Indexed ''li'' 1) ''<strong>a</strong> b'', Li (Indexed ''li'' 2) ''c'',
           Li (Indexed ''li'' 3) ''d'', Li (Indexed ''li'' 4) ''e'']]"
    unfolding list_lines_accumulate [OF h1 h2 h3, of 1, THEN conjunct2]
    by (simp add: init_state_def startsWith_def enumerate_eq_zip upt_rec isLineTerminator_def)
  then have e: "finish (run ?s 1 [''7. **a** b'', ''- c'', ''* d'', ''12. e'']) =
       [P (Indexed ''p'' 1) ''intro'',
        Ul (Literal ''final-ul'')
          [Li (Indexed ''li'' 1) ''<strong>a</strong> b'', Li (Indexed ''li'' 2) ''c'',
           Li (Indexed ''li'' 3) ''d'', Li (Indexed ''li'' 4) ''e'']]"
    by (simp only: l)
  show ?thesis
    by (rule conjI [OF h1 conjI [OF h2 e]])
qed

text \<open>
  Claim C9. When the input opens a code block with a fence line and no later line starts
  with the fence, the result is what the lines in front of the fence and the flush at the
  fence produced: it is the same as for the input cut off behind the fence line. The lines
  behind the fence are buffered and never pushed, so no \<open>Pre\<close> element stems from them.
\<close>

theorem unclosed_fence_drops_rest:
  assumes "split_lines md = before @ fence # rest"
    and "\<not> inCodeBlock (run init_state 0 before)"
    and "startsWith fence ''```''"
    and "\<forall>l \<in> set rest. \<not> startsWith l ''```''"
  shows "renderContent md =
           elements (run init_state 0 before)
             @ pending (length before) (run init_state 0 before)
       \<and> renderContent md = finish (run init_state 0 (before @ [fence]))
       \<and> codeLines (run init_state 0 (split_lines md)) =
           codeLines (run init_state 0 before) @ rest"
proof -
  let ?s0 = "run init_state 0 before"
  let ?s1 = "?s0\<lparr> elements := elements ?s0 @ pending (length before) ?s0,
                  currentParagraph := [], listItems := [], inCodeBlock := True \<rparr>"
  have o: "step ?s0 fence (length before) = ?s1"
    using assms(2,3) by (rule step_open)
  have f: "run init_state 0 (before @ [fence]) = ?s1"
    by (simp add: run_append o)
  have "run init_state 0 (before @ fence # rest) = run ?s1 (length before + 1) rest"
    by (simp add: run_append o)
  also have "\<dots> = ?s1\<lparr> codeLines := codeLines ?s1 @ rest \<rparr>"
    using assms(4) by (intro run_inside) simp_all
  finally have r: "run init_state 0 (split_lines md) = ?s1\<lparr> codeLines := codeLines ?s0 @ rest \<rparr>"
    by (simp add: assms(1))
  show ?thesis
    unfolding renderContent_def r f
    by (simp add: finish_def flush_paragraph_def flush_list_def)
qed

text \<open>Claim C9 at a paragraph followed by a fence that is never closed.\<close>

theorem unclosed_fence_drops_rest_witness:
  "split_lines ''text\<newline>```js\<newline>## H\<newline>- x'' = [''text''] @ ''```js'' # [''## H'', ''- x'']
   \<and> \<not> inCodeBlock (run init_state 0 [''text''])
   \<and> startsWith ''```js'' ''```''
   \<and> \<not> startsWith ''## H'' ''```'' \<and> \<not> startsWith ''- x'' ''```''
   \<and> renderContent ''text\<newline>```js\<newline>## H\<newline>- x'' = [P (Indexed ''p'' 1) ''text'']"
proof -
  let ?md = "''text\<newline>```js\<newline>## H\<newline>- x''"
  have r0: "run init_state 0 [''text''] = init_state\<lparr> currentParagraph := [''text''] \<rparr>"
    by (simp add: step_def init_state_def startsWith_def numbered_marker_def isDigit_def
        trim_def isSpace_def)
  have h1: "split_lines ?md = [''text''] @ ''```js'' # [''## H'', ''- x'']"
    by simp
  have h2: "\<not> inCodeBlock (run init_state 0 [''text''])"
    unfolding r0 by (simp add: init_state_def)
  have h3: "startsWith ''```js'' ''```''" by (simp add: startsWith_def)
  have h4a: "\<not> startsWith ''## H'' ''```''" by (simp add: startsWith_def)
  have h4b: "\<not> startsWith ''- x'' ''```''" by (simp add: startsWith_def)
  have h4: "\<forall>l \<in> set [''## H'', ''- x'']. \<not> startsWith l ''```''"
    using h4a h4b by simp
  have e: "renderContent ?md = [P (Indexed ''p'' 1) ''text'']"
    unfolding unclosed_fence_drops_rest [OF h1 h2 h3 h4, THEN conjunct1] r0
    by (simp add: init_state_def pending_def)
  show ?thesis
    by (rule conjI [OF h1 conjI [OF h2 conjI [OF h3 conjI [OF h4a conjI [OF h4b e]]]]])
qed


section \<open>Properties of the renderer over all code units\<close>

lemma step16_total: "\<exists>s'. step16 s line i = Inr s'"
  by (auto simp: step16_def match_group1_def match_group2_def Let_def split: option.splits)

lemma run16_total: "\<exists>s'. run16 s i ls = Inr s'"
proof (induction ls arbitrary: s i)
  case Nil
  then show ?case by simp
next
  case (Cons l ls)
  obtain s1 where "step16 s l i = Inr s1"
    using step16_total by blast
  then show ?case
    using Cons.IH [of s1 "i + 1"] by simp
qed

lemma renderContent16_total: "\<exists>els. renderContent16 md = Inr els"
proof -
  obtain s where "run16 init_state16 0 (split_lines16 md) = Inr s"
    using run16_total by blast
  then show ?thesis
    by (simp add: renderContent16_def)
qed

lemma run16_append:
  "run16 s i (xs @ ys) =
     (case run16 s i xs of Inl e \<Rightarrow> Inl e | Inr s' \<Rightarrow> run16 s' (i + length xs) ys)"
  by (induction xs arbitrary: s i) (simp_all split: sum.splits)

lemma step16_plain:
  "\<not> inCodeBlock16 s \<Longrightarrow> plain_line16 l \<Longrightarrow>
     step16 s l i = Inr (s\<lparr> currentParagraph16 := currentParagraph16 s @ [bold16 l] \<rparr>)"
  by (simp add: step16_def plain_line16_def)

lemma run16_plain:
  "\<not> inCodeBlock16 s \<Longrightarrow> \<forall>l \<in> set ls. plain_line16 l \<Longrightarrow>
     run16 s i ls = Inr (s\<lparr> currentParagraph16 := currentParagraph16 s @ map bold16 ls \<rparr>)"
  by (induction ls arbitrary: s i) (simp_all add: step16_plain)

lemma flush_paragraph16_pushes:
  "currentParagraph16 s \<noteq> [] \<Longrightarrow>
     P16 k (join16 (lit '' '') (currentParagraph16 s)) \<in> set (elements16 (flush_paragraph16 k s))"
  by (simp add: flush_paragraph16_def)

lemma flush_list16_keeps: "set (elements16 s) \<subseteq> set (elements16 (flush_list16 k s))"
  by (auto simp: flush_list16_def)

lemma flush_paragraph16_keeps: "set (elements16 s) \<subseteq> set (elements16 (flush_paragraph16 k s))"
  by (auto simp: flush_paragraph16_def)

lemma flush_both16_keeps: "set (elements16 s) \<subseteq> set (elements16 (flush_both16 i s))"
  unfolding flush_both16_def
  using flush_list16_keeps flush_paragraph16_keeps by blast

lemma flush_both16_pushes:
  "currentParagraph16 s \<noteq> [] \<Longrightarrow>
     P16 (Indexed ''p'' i) (join16 (lit '' '') (currentParagraph16 s))
       \<in> set (elements16 (flush_both16 i s))"
  unfolding flush_both16_def
  using flush_paragraph16_pushes flush_list16_keeps by blast

lemma flush_paragraph16_listItems [simp]:
  "listItems16 (flush_paragraph16 k s) = listItems16 s"
  by (simp add: flush_paragraph16_def)

lemma step16_keeps:
  assumes "step16 s l i = Inr s'"
  shows "set (elements16 s) \<subseteq> set (elements16 s')"
proof -
  note fb = flush_both16_keeps [of s i] and fp = flush_paragraph16_keeps [of s "Indexed ''p'' i"]
  show ?thesis
    using assms fb fp
    by (auto simp: step16_def match_group1_def match_group2_def Let_def
        split: if_splits option.splits)
qed

lemma step16_flushes:
  assumes "\<not> inCodeBlock16 s" and "\<not> plain_line16 l" and "currentParagraph16 s \<noteq> []"
    and "step16 s l i = Inr s'"
  shows "P16 (Indexed ''p'' i) (join16 (lit '' '') (currentParagraph16 s)) \<in> set (elements16 s')"
proof -
  note fb = flush_both16_pushes [OF assms(3), of i]
    and fp = flush_paragraph16_pushes [OF assms(3), of "Indexed ''p'' i"]
  show ?thesis
    using assms(1,2,4) fb fp
    by (auto simp: step16_def plain_line16_def match_group1_def match_group2_def Let_def
        split: if_splits option.splits)
qed

lemma run16_keeps:
  "run16 s i ls = Inr s' \<Longrightarrow> set (elements16 s) \<subseteq> set (elements16 s')"
proof (induction ls arbitrary: s i)
  case Nil
  then show ?case by simp
next
  case (Cons l ls)
  obtain s1 where s1: "step16 s l i = Inr s1"
    using step16_total by blast
  then have "run16 s1 (i + 1) ls = Inr s'"
    using Cons.prems by simp
  then have "set (elements16 s1) \<subseteq> set (elements16 s')"
    by (rule Cons.IH)
  then show ?case
    using step16_keeps [OF s1] by blast
qed

lemma finish16_keeps: "set (elements16 s) \<subseteq> set (finish16 s)"
  unfolding finish16_def
  using flush_list16_keeps flush_paragraph16_keeps by blast

lemma finish16_pushes:
  "currentParagraph16 s \<noteq> [] \<Longrightarrow>
     P16 (Literal ''final-p'') (join16 (lit '' '') (currentParagraph16 s)) \<in> set (finish16 s)"
  unfolding finish16_def
  using flush_paragraph16_pushes flush_list16_keeps by blast

lemma bold16_without_stars: "\<not> contains_stars16 l \<Longrightarrow> bold16 l = l"
  by (induction l) simp_all

lemma plain_run_emitted:
  assumes "\<not> inCodeBlock16 s" and "plain_line16 line"
    and "run16 s i (line # after) = Inr s'"
  shows "P16 (if dropWhile plain_line16 after = [] then Literal ''final-p''
              else Indexed ''p'' (i + 1 + length (takeWhile plain_line16 after)))
           (join16 (lit '' '')
              (currentParagraph16 s @ map bold16 (line # takeWhile plain_line16 after)))
         \<in> set (finish16 s')"
proof -
  let ?r = "takeWhile plain_line16 after"
  let ?rest = "dropWhile plain_line16 after"
  let ?s1 = "s\<lparr> currentParagraph16 := currentParagraph16 s @ map bold16 (line # ?r) \<rparr>"
  have pl: "\<forall>l \<in> set (line # ?r). plain_line16 l"
    using assms(2) by (auto dest: set_takeWhileD)
  have r1: "run16 s i (line # ?r) = Inr ?s1"
    by (rule run16_plain [OF assms(1) pl])
  have "line # after = (line # ?r) @ ?rest"
    by simp
  then have "run16 s i (line # after) = run16 ?s1 (i + length (line # ?r)) ?rest"
    using run16_append [of s i "line # ?r" ?rest] r1 by (simp del: run16.simps)
  then have r2: "run16 ?s1 (i + 1 + length ?r) ?rest = Inr s'"
    using assms(3) by (simp del: run16.simps)
  have cp: "currentParagraph16 ?s1 \<noteq> []" by simp
  have cpe: "currentParagraph16 ?s1 = currentParagraph16 s @ map bold16 (line # ?r)" by simp
  show ?thesis
  proof (cases ?rest)
    case Nil
    from r2 [unfolded Nil] have "s' = ?s1" by simp
    then have "P16 (Literal ''final-p'')
        (join16 (lit '' '') (currentParagraph16 s @ map bold16 (line # ?r))) \<in> set (finish16 s')"
      using finish16_pushes [OF cp] by (simp only: cpe)
    then show ?thesis
      by (simp only: Nil simp_thms if_True)
  next
    case (Cons x rest')
    then have nx: "\<not> plain_line16 x"
      using hd_dropWhile [of plain_line16 after] by (metis list.sel(1) list.distinct(1))
    obtain s2 where s2: "step16 ?s1 x (i + 1 + length ?r) = Inr s2"
      using step16_total by blast
    have nc: "\<not> inCodeBlock16 ?s1" using assms(1) by simp
    have p: "P16 (Indexed ''p'' (i + 1 + length ?r)) (join16 (lit '' '') (currentParagraph16 ?s1))
        \<in> set (elements16 s2)"
      using nc nx cp s2 by (rule step16_flushes)
    have "run16 s2 (i + 1 + length ?r + 1) rest' = Inr s'"
      using r2 [unfolded Cons] s2 by simp
    then have "set (elements16 s2) \<subseteq> set (elements16 s')"
      by (rule run16_keeps)
    then have "P16 (Indexed ''p'' (i + 1 + length ?r)) (join16 (lit '' '') (currentParagraph16 ?s1))
        \<in> set (finish16 s')"
      using p finish16_keeps [of s'] by blast
    then have "P16 (Indexed ''p'' (i + 1 + length ?r))
        (join16 (lit '' '') (currentParagraph16 s @ map bold16 (line # ?r))) \<in> set (finish16 s')"
      by (simp only: cpe)
    then show ?thesis
      by (simp only: Cons list.distinct if_False)
  qed
qed

text \<open>
  Claim C7. For every string of code units \<^verbatim>\<open>renderContent\<close> returns a sequence of
  elements: the only place where the function could throw, reading the groups of a match
  that is \<^verbatim>\<open>null\<close>, is never reached with \<^verbatim>\<open>null\<close>. And whatever the rest of the input
  is, a line outside a code block that none of the tests recognises ends in a paragraph:
  the result holds one \<open>P\<close> element made of the paragraph pending in front of the line, the
  line and the unrecognised lines that follow it directly, bold-formatted and joined by
  spaces; its key is the index of the line that ends this run, or \<^verbatim>\<open>final-p\<close> at the end
  of the input. A line without \<^verbatim>\<open>**\<close> enters the paragraph unchanged.
\<close>

theorem renderContent16_total_and_plain_lines:
  "(\<exists>els. renderContent16 md = Inr els)
   \<and> (split_lines16 md = before @ line # after \<and> run16 init_state16 0 before = Inr s
        \<and> \<not> inCodeBlock16 s \<and> plain_line16 line \<longrightarrow>
      (\<exists>els. renderContent16 md = Inr els \<and>
         P16 (if dropWhile plain_line16 after = [] then Literal ''final-p''
              else Indexed ''p'' (length before + 1 + length (takeWhile plain_line16 after)))
             (join16 (lit '' '')
                (currentParagraph16 s @ map bold16 (line # takeWhile plain_line16 after)))
           \<in> set els))
   \<and> (\<not> contains_stars16 line \<longrightarrow> bold16 line = line)"
proof (intro conjI impI)
  show "\<exists>els. renderContent16 md = Inr els"
    by (rule renderContent16_total)
next
  assume a: "split_lines16 md = before @ line # after \<and> run16 init_state16 0 before = Inr s
        \<and> \<not> inCodeBlock16 s \<and> plain_line16 line"
  obtain s' where s': "run16 init_state16 0 (split_lines16 md) = Inr s'"
    using run16_total by blast
  then have "run16 s (length before) (line # after) = Inr s'"
    using a run16_append [of init_state16 0 before "line # after"] by (simp del: run16.simps)
  then have e: "P16 (if dropWhile plain_line16 after = [] then Literal ''final-p''
              else Indexed ''p'' (length before + 1 + length (takeWhile plain_line16 after)))
             (join16 (lit '' '')
                (currentParagraph16 s @ map bold16 (line # takeWhile plain_line16 after)))
           \<in> set (finish16 s')"
    using a by (intro plain_run_emitted) simp_all
  have rc: "renderContent16 md = Inr (finish16 s')"
    using s' by (simp add: renderContent16_def)
  show "\<exists>els. renderContent16 md = Inr els \<and>
         P16 (if dropWhile plain_line16 after = [] then Literal ''final-p''
              else Indexed ''p'' (length before + 1 + length (takeWhile plain_line16 after)))
             (join16 (lit '' '')
                (currentParagraph16 s @ map bold16 (line # takeWhile plain_line16 after)))
           \<in> set els"
    by (rule exI [of _ "finish16 s'"], rule conjI [OF rc e])
next
  assume "\<not> contains_stars16 line"
  then show "bold16 line = line"
    by (rule bold16_without_stars)
qed

text \<open>
  Claim C7 at an input with a heading, a line that starts with two code units above 255
  and holds an asterisk emphasis, a second plain line, a blank line and a list item.
\<close>

theorem renderContent16_total_and_plain_lines_witness:
  "split_lines16 (lit ''## H'' @ [0x0A, 0x4E2D, 0x6587] @ lit '' *x* **b**'' @ [0x0A]
       @ lit ''more'' @ [0x0A, 0x0A] @ lit ''- item'') =
     [lit ''## H''] @ ([0x4E2D, 0x6587] @ lit '' *x* **b**'') # [lit ''more'', [], lit ''- item'']
   \<and> run16 init_state16 0 [lit ''## H''] =
       Inr (init_state16\<lparr> elements16 := [H2_16 (Indexed ''h2'' 0) (lit ''H'')] \<rparr>)
   \<and> plain_line16 ([0x4E2D, 0x6587] @ lit '' *x* **b**'')
   \<and> (\<exists>els. renderContent16 (lit ''## H'' @ [0x0A, 0x4E2D, 0x6587] @ lit '' *x* **b**'' @ [0x0A]
                @ lit ''more'' @ [0x0A, 0x0A] @ lit ''- item'') = Inr els
          \<and> P16 (Indexed ''p'' 3) ([0x4E2D, 0x6587] @ lit '' *x* <strong>b</strong> more'')
              \<in> set els)
   \<and> renderContent16 (lit ''## H'' @ [0x0A, 0x4E2D, 0x6587] @ lit '' *x* **b**'' @ [0x0A]
         @ lit ''more'' @ [0x0A, 0x0A] @ lit ''- item'') =
       Inr [H2_16 (Indexed ''h2'' 0) (lit ''H''),
            P16 (Indexed ''p'' 3) ([0x4E2D, 0x6587] @ lit '' *x* <strong>b</strong> more''),
            Ul16 (Literal ''final-ul'') [Li16 (Indexed ''li'' 4) (lit ''item'')]]"
proof -
  let ?md = "lit ''## H'' @ [0x0A, 0x4E2D, 0x6587] @ lit '' *x* **b**'' @ [0x0A]
       @ lit ''more'' @ [0x0A, 0x0A] @ lit ''- item''"
  let ?line = "[0x4E2D, 0x6587] @ lit '' *x* **b**''"
  let ?after = "[lit ''more'', [], lit ''- item'']"
  let ?s = "init_state16\<lparr> elements16 := [H2_16 (Indexed ''h2'' 0) (lit ''H'')] \<rparr>"
  have h1: "split_lines16 ?md = [lit ''## H''] @ ?line # ?after"
    by (simp add: lit_def)
  have h2: "run16 init_state16 0 [lit ''## H''] = Inr ?s"
    by (simp add: step16_def init_state16_def lit_def startsWith16_def flush_both16_def
        flush_paragraph16_def flush_list16_def)
  have h3: "\<not> inCodeBlock16 ?s"
    by (simp add: init_state16_def)
  have h4: "plain_line16 ?line"
    by (simp add: plain_line16_def lit_def startsWith16_def numbered_marker16_def isDigit16_def
        trim16_def isSpace16_def)
  have more: "plain_line16 (lit ''more'')"
    by (simp add: plain_line16_def lit_def startsWith16_def numbered_marker16_def isDigit16_def
        trim16_def isSpace16_def)
  have blank: "\<not> plain_line16 []"
    by (simp add: plain_line16_def trim16_def)
  have t: "takeWhile plain_line16 ?after = [lit ''more'']"
    using more blank by simp
  have d: "dropWhile plain_line16 ?after = [[], lit ''- item'']"
    using more blank by simp
  have j: "join16 (lit '' '') (currentParagraph16 ?s @ map bold16 [?line, lit ''more'']) =
      [0x4E2D, 0x6587] @ lit '' *x* <strong>b</strong> more''"
    by (simp add: init_state16_def lit_def startsWith16_def isLineTerminator16_def)
  have "\<exists>els. renderContent16 ?md = Inr els \<and>
         P16 (if dropWhile plain_line16 ?after = [] then Literal ''final-p''
              else Indexed ''p'' (length [lit ''## H''] + 1 + length (takeWhile plain_line16 ?after)))
             (join16 (lit '' '')
                (currentParagraph16 ?s @ map bold16 (?line # takeWhile plain_line16 ?after)))
           \<in> set els"
    using renderContent16_total_and_plain_lines
      [of ?md "[lit ''## H'']" ?line ?after ?s, THEN conjunct2, THEN conjunct1]
      h1 h2 h3 h4
    by blast
  then have e: "\<exists>els. renderContent16 ?md = Inr els
          \<and> P16 (Indexed ''p'' 3) ([0x4E2D, 0x6587] @ lit '' *x* <strong>b</strong> more'') \<in> set els"
    unfolding t d j by (simp add: numeral_3_eq_3)
  have v: "renderContent16 ?md =
       Inr [H2_16 (Indexed ''h2'' 0) (lit ''H''),
            P16 (Indexed ''p'' 3) ([0x4E2D, 0x6587] @ lit '' *x* <strong>b</strong> more''),
            Ul16 (Literal ''final-ul'') [Li16 (Indexed ''li'' 4) (lit ''item'')]]"
    by (simp add: renderContent16_def step16_def init_state16_def lit_def startsWith16_def
        flush_both16_def flush_paragraph16_def flush_list16_def finish16_def
        numbered_marker16_def strip_bullet16_def isDigit16_def trim16_def isSpace16_def
        isLineTerminator16_def)
  show ?thesis
    by (rule conjI [OF h1 conjI [OF h2 conjI [OF h4 conjI [OF e v]]]])
qed

subsection \<open>Agreement with the renderer on code units below 256\<close>

text \<open>
  On a string of code units below 256 the function of this section returns what
  \<open>renderContent\<close> returns, so the properties shown for \<open>renderContent\<close> hold for it on
  these strings too.
\<close>

lemma lit_simps [simp]:
  "lit [] = []" "lit (a @ b) = lit a @ lit b"
  "length (lit a) = length a" "take n (lit a) = lit (take n a)" "drop n (lit a) = lit (drop n a)"
  "rev (lit a) = lit (rev a)"
  by (simp_all add: lit_def take_map drop_map rev_map)

lemma lit_Cons: "lit (c # cs) = of_char c # lit cs"
  by (simp add: lit_def)

lemma lit_eq_iff [simp]: "lit a = lit b \<longleftrightarrow> a = b"
  unfolding lit_def by (rule inj_map_eq_map) (rule inj_of_char)

lemma lit_eq_Nil [simp]: "lit a = [] \<longleftrightarrow> a = []"
  by (simp add: lit_def)

lemma of_char_eq_const: "of_char d = (n::nat) \<Longrightarrow> (of_char c = n) = (c = d)"
  by auto

lemma of_char_space_consts:
  "(of_char c = (0x09::nat)) = (c = CHR 0x09)"
  "(of_char c = (0x0A::nat)) = (c = CHR 0x0A)"
  "(of_char c = (0x0B::nat)) = (c = CHR 0x0B)"
  "(of_char c = (0x0C::nat)) = (c = CHR 0x0C)"
  "(of_char c = (0x0D::nat)) = (c = CHR 0x0D)"
  "(of_char c = (0x20::nat)) = (c = CHR 0x20)"
  "(of_char c = (0xA0::nat)) = (c = CHR 0xA0)"
  by (rule of_char_eq_const, simp)+

lemma of_char_digit_consts:
  "(of_char c = (0x30::nat)) = (c = CHR ''0'')"
  "(of_char c = (0x31::nat)) = (c = CHR ''1'')"
  "(of_char c = (0x32::nat)) = (c = CHR ''2'')"
  "(of_char c = (0x33::nat)) = (c = CHR ''3'')"
  "(of_char c = (0x34::nat)) = (c = CHR ''4'')"
  "(of_char c = (0x35::nat)) = (c = CHR ''5'')"
  "(of_char c = (0x36::nat)) = (c = CHR ''6'')"
  "(of_char c = (0x37::nat)) = (c = CHR ''7'')"
  "(of_char c = (0x38::nat)) = (c = CHR ''8'')"
  "(of_char c = (0x39::nat)) = (c = CHR ''9'')"
  by (rule of_char_eq_const, simp)+

lemma of_char_mark_consts:
  "(of_char c = (0x29::nat)) = (c = CHR 0x29)"
  "(of_char c = (0x2A::nat)) = (c = CHR 0x2A)"
  "(of_char c = (0x2D::nat)) = (c = CHR 0x2D)"
  "(of_char c = (0x2E::nat)) = (c = CHR 0x2E)"
  by (rule of_char_eq_const, simp)+

lemma of_char_small: "\<not> (0x100 \<le> (of_char c :: nat))"
  using nat_of_char_less_256 [of c] by linarith

lemma isLineTerminator16_of_char [simp]: "isLineTerminator16 (of_char c) = isLineTerminator c"
proof -
  have "(of_char c :: nat) \<noteq> 0x2028" and "(of_char c :: nat) \<noteq> 0x2029"
    using nat_of_char_less_256 [of c] by linarith+
  then show ?thesis
    by (simp add: isLineTerminator16_def isLineTerminator_def of_char_space_consts)
qed

lemma isSpace16_of_char [simp]: "isSpace16 (of_char c) = isSpace c"
proof -
  have "\<not> (0x2000 \<le> (of_char c :: nat) \<and> (of_char c :: nat) \<le> 0x200A)"
    and "(of_char c :: nat) \<noteq> 0x1680" and "(of_char c :: nat) \<noteq> 0x2028"
    and "(of_char c :: nat) \<noteq> 0x2029" and "(of_char c :: nat) \<noteq> 0x202F"
    and "(of_char c :: nat) \<noteq> 0x205F" and "(of_char c :: nat) \<noteq> 0x3000"
    and "(of_char c :: nat) \<noteq> 0xFEFF"
    using nat_of_char_less_256 [of c] by linarith+
  then show ?thesis
    by (auto simp add: isSpace16_def isSpace_def of_char_space_consts)
qed

lemma isDigit16_of_char [simp]: "isDigit16 (of_char c) = isDigit c"
proof -
  have "(0x30 \<le> n \<and> n \<le> 0x39) =
      (n = 0x30 \<or> n = 0x31 \<or> n = 0x32 \<or> n = 0x33 \<or> n = 0x34 \<or> n = 0x35
        \<or> n = 0x36 \<or> n = 0x37 \<or> n = 0x38 \<or> n = 0x39)" for n :: nat
    by arith
  then show ?thesis
    by (simp add: isDigit16_def isDigit_def of_char_digit_consts)
qed

lemma drop_Cons_lit [simp]: "drop n (of_char c # lit cs) = lit (drop n (c # cs))"
  by (simp add: lit_Cons [symmetric] del: drop_Suc_Cons)

lemma startsWith16_lit [simp]: "startsWith16 (lit s) (lit p) = startsWith s p"
  by (simp add: startsWith16_def startsWith_def)

lemma startsWith16_Cons_lit [simp]:
  "startsWith16 (of_char c # lit cs) (lit p) = startsWith (c # cs) p"
  using startsWith16_lit [of "c # cs" p] by (simp only: lit_Cons)

lemma replace_first16_lit:
  "replace_first16 (lit s) (lit p) (lit r) = lit (replace_first s p r)"
proof (induction s)
  case Nil
  then show ?case by simp
next
  case (Cons c cs)
  then show ?case
    by (simp add: lit_Cons [of c cs] lit_Cons [of c "replace_first cs p r"])
qed

lemma split_lines16_lit: "split_lines16 (lit s) = map lit (split_lines s)"
proof (induction s)
  case Nil
  then show ?case by simp
next
  case (Cons c cs)
  show ?case
  proof (cases "split_lines cs")
    case Nil
    then show ?thesis
      using Cons.IH by (simp add: lit_Cons [of c cs] lit_Cons [of c "[]"] of_char_space_consts)
  next
    case (Cons l ls)
    then show ?thesis
      using Cons.IH by (simp add: lit_Cons [of c cs] lit_Cons [of c l] of_char_space_consts)
  qed
qed

lemma join16_lit: "join16 (lit sep) (map lit xs) = lit (join sep xs)"
  by (induction sep xs rule: join.induct) simp_all

lemma dropWhile_isSpace16_lit [simp]: "dropWhile isSpace16 (lit s) = lit (dropWhile isSpace s)"
  by (induction s) (simp_all add: lit_Cons)

lemma takeWhile_isDigit16_lit [simp]: "takeWhile isDigit16 (lit s) = lit (takeWhile isDigit s)"
  by (induction s) (simp_all add: lit_Cons)

lemma dropWhile_isDigit16_lit [simp]: "dropWhile isDigit16 (lit s) = lit (dropWhile isDigit s)"
  by (induction s) (simp_all add: lit_Cons)

lemma trim16_lit: "trim16 (lit s) = lit (trim s)"
  by (simp add: trim16_def trim_def)

lemma numbered_marker_case_lit:
  assumes "A' = A" and "X' = X"
  shows "(case lit r of
            d # w # _ \<Rightarrow> if A' \<and> d = 0x2E \<and> isSpace16 w then X' else None
          | _ \<Rightarrow> None) =
         (case r of
            d # w # _ \<Rightarrow> if A \<and> d = CHR ''.'' \<and> isSpace w then X else None
          | _ \<Rightarrow> None)"
proof (cases r)
  case Nil
  then show ?thesis by simp
next
  case (Cons d rest)
  then show ?thesis
    using assms by (cases rest) (simp_all add: lit_Cons of_char_mark_consts)
qed

lemma numbered_marker16_lit: "numbered_marker16 (lit l) = numbered_marker l"
  unfolding numbered_marker16_def numbered_marker_def Let_def
    takeWhile_isDigit16_lit dropWhile_isDigit16_lit
  by (rule numbered_marker_case_lit) simp_all

lemma strip_numbered16_lit: "strip_numbered16 (lit l) = lit (strip_numbered l)"
  by (simp add: strip_numbered16_def strip_numbered_def numbered_marker16_lit split: option.splits)

lemma strip_bullet16_lit: "strip_bullet16 (lit l) = lit (strip_bullet l)"
proof (cases l)
  case Nil
  then show ?thesis by (simp add: strip_bullet16_def strip_bullet_def)
next
  case (Cons b rest)
  then show ?thesis
    by (cases rest)
       (simp_all add: strip_bullet16_def strip_bullet_def lit_Cons of_char_mark_consts)
qed

lemma bold_close16_lit:
  "bold_close16 (lit s) = map_option (\<lambda>(inner, rest). (lit inner, lit rest)) (bold_close s)"
proof (induction s)
  case Nil
  then show ?case by simp
next
  case (Cons c cs)
  show ?case
  proof (cases "bold_close cs")
    case None
    then show ?thesis
      using Cons.IH by (simp add: lit_Cons [of c cs])
  next
    case (Some r)
    obtain inner rest where r: "r = (inner, rest)" by (cases r)
    show ?thesis
      using Cons.IH Some by (simp add: lit_Cons [of c cs] lit_Cons [of c inner] r)
  qed
qed

lemma bold16_lit: "bold16 (lit s) = lit (bold s)"
proof (induction s rule: bold.induct)
  case 1
  then show ?case by simp
next
  case (2 c cs)
  show ?case
  proof (cases "startsWith (c # cs) ''**''")
    case False
    then show ?thesis
      using "2.IH" by (simp add: lit_Cons [of c cs] lit_Cons [of c "bold cs"])
  next
    case True
    show ?thesis
    proof (cases "bold_close (drop 1 cs)")
      case None
      then show ?thesis
        using True "2.IH"
        by (simp add: lit_Cons [of c cs] lit_Cons [of c "bold cs"] bold_close16_lit)
    next
      case (Some r)
      obtain inner rest where r: "r = (inner, rest)" by (cases r)
      have ih: "bold16 (lit rest) = lit (bold rest)"
        using True Some r "2.IH" by simp
      have rhs: "bold (c # cs) = ''<strong>'' @ inner @ ''</strong>'' @ bold rest"
        using True Some r by simp
      have lhs: "bold16 (lit (c # cs)) =
          lit ''<strong>'' @ lit inner @ lit ''</strong>'' @ bold16 (lit rest)"
        using True Some r by (simp add: lit_Cons [of c cs] bold_close16_lit)
      show ?thesis
        unfolding lhs rhs ih by (simp only: lit_simps)
    qed
  qed
qed

lemma img_src16_lit: "img_src16 (lit s) = map_option lit (img_src s)"
proof (induction s)
  case Nil
  then show ?case by simp
next
  case (Cons c cs)
  show ?case
  proof (cases "img_src cs")
    case None
    then show ?thesis
      using Cons.IH by (simp add: lit_Cons [of c cs] of_char_mark_consts)
  next
    case (Some r)
    then show ?thesis
      using Cons.IH by (simp add: lit_Cons [of c cs] lit_Cons [of c r] of_char_mark_consts)
  qed
qed

lemma img_alt16_lit:
  "img_alt16 (lit s) = map_option (\<lambda>(alt, src). (lit alt, lit src)) (img_alt s)"
proof (induction s)
  case Nil
  then show ?case by simp
next
  case (Cons c cs)
  show ?case
  proof (cases "img_alt cs")
    case None
    then show ?thesis
      using Cons.IH
      by (simp add: lit_Cons [of c cs] img_src16_lit split: option.splits)
  next
    case (Some r)
    obtain alt src where r: "r = (alt, src)" by (cases r)
    show ?thesis
      using Cons.IH Some
      by (simp add: lit_Cons [of c cs] lit_Cons [of c alt] img_src16_lit r split: option.splits)
  qed
qed

lemma image_match16_lit:
  "image_match16 (lit s) = map_option (\<lambda>(alt, src). (lit alt, lit src)) (image_match s)"
proof (induction s)
  case Nil
  then show ?case by simp
next
  case (Cons c cs)
  then show ?case
    by (simp add: lit_Cons [of c cs] img_alt16_lit split: option.splits)
qed

lemma replace_first16_lit_empty:
  "replace_first16 (lit s) (lit p) [] = lit (replace_first s p '''')"
  using replace_first16_lit [of s p "''''"] by simp

lemma join16_newline_lit: "join16 [0x0A] (map lit xs) = lit (join [CHR 0x0A] xs)"
proof -
  have "[0x0A] = lit [CHR 0x0A]" by (simp add: lit_def)
  then show ?thesis by (simp only: join16_lit)
qed

lemma flush_paragraph16_embed:
  "flush_paragraph16 k (embed_state s) = embed_state (flush_paragraph k s)"
  by (simp add: flush_paragraph16_def flush_paragraph_def embed_state_def join16_lit)

lemma flush_list16_embed:
  "flush_list16 k (embed_state s) = embed_state (flush_list k s)"
  by (simp add: flush_list16_def flush_list_def embed_state_def)

lemma flush_both16_embed:
  "flush_both16 i (embed_state s) = embed_state (flush_both i s)"
  by (simp add: flush_both16_def flush_both_def flush_paragraph16_embed flush_list16_embed)

lemma embed_state_fields [simp]:
  "inCodeBlock16 (embed_state s) = inCodeBlock s"
  "elements16 (embed_state s) = map embed_element (elements s)"
  "codeLines16 (embed_state s) = map lit (codeLines s)"
  "listItems16 (embed_state s) = map embed_li (listItems s)"
  "currentParagraph16 (embed_state s) = map lit (currentParagraph s)"
  by (simp_all add: embed_state_def)

lemma embed_state_updates [simp]:
  "embed_state (s\<lparr> inCodeBlock := b \<rparr>) = (embed_state s)\<lparr> inCodeBlock16 := b \<rparr>"
  "embed_state (s\<lparr> elements := es \<rparr>) = (embed_state s)\<lparr> elements16 := map embed_element es \<rparr>"
  "embed_state (s\<lparr> codeLines := cl \<rparr>) = (embed_state s)\<lparr> codeLines16 := map lit cl \<rparr>"
  "embed_state (s\<lparr> listItems := its \<rparr>) = (embed_state s)\<lparr> listItems16 := map embed_li its \<rparr>"
  "embed_state (s\<lparr> currentParagraph := cp \<rparr>) =
     (embed_state s)\<lparr> currentParagraph16 := map lit cp \<rparr>"
  by (simp_all add: embed_state_def)

lemma step16_embed: "step16 (embed_state s) (lit l) i = Inr (embed_state (step s l i))"
proof (cases "image_match l")
  case None
  then show ?thesis
    by (simp add: step16_def step_def Let_def flush_both16_embed flush_paragraph16_embed
        numbered_marker16_lit strip_numbered16_lit strip_bullet16_lit trim16_lit
        image_match16_lit bold16_lit replace_first16_lit_empty join16_newline_lit)
next
  case (Some r)
  obtain alt src where r: "r = (alt, src)" by (cases r)
  show ?thesis
    using Some
    by (simp add: step16_def step_def Let_def flush_both16_embed flush_paragraph16_embed
        numbered_marker16_lit strip_numbered16_lit strip_bullet16_lit trim16_lit
        image_match16_lit bold16_lit replace_first16_lit_empty join16_newline_lit
        match_group1_def match_group2_def r)
qed

lemma run16_embed: "run16 (embed_state s) i (map lit ls) = Inr (embed_state (run s i ls))"
  by (induction ls arbitrary: s i) (simp_all add: step16_embed)

lemma finish16_embed: "finish16 (embed_state s) = map embed_element (finish s)"
  by (simp add: finish16_def finish_def flush_paragraph16_embed flush_list16_embed)

lemma init_state16_embed: "init_state16 = embed_state init_state"
  by (simp add: init_state16_def init_state_def embed_state_def)

text \<open>The two renderers agree: no exception, and the same elements.\<close>

theorem renderContent16_lit:
  "renderContent16 (lit md) = Inr (map embed_element (renderContent md))"
  by (simp add: renderContent16_def renderContent_def split_lines16_lit init_state16_embed
      run16_embed finish16_embed)

end
